theory Spec2Isabelle
  imports Main "HOL-Library.Char_ord" "HOL-Library.List_Lexorder" "HOL-Library.AList"
    "HOL-Library.Multiset"
begin

section \<open>The Python values handled by \<^verbatim>\<open>bencode.py\<close>\<close>

text \<open>
  A \<^verbatim>\<open>bytes\<close> object is a list of 8-bit characters; a \<^verbatim>\<open>str\<close> is a list of Unicode
  code points. Python compares both lexicographically (by byte value, by code point),
  which is the order of \<open>List_Lexorder\<close> over \<open>Char_ord\<close> and over \<open>nat\<close>.
\<close>

type_synonym bytes = "char list"
type_synonym pystr = "nat list"

text \<open>
  The exceptions that can leave the module: its own two classes and the built-in
  ones raised by \<^verbatim>\<open>bytes.index\<close>, \<^verbatim>\<open>int\<close>, \<^verbatim>\<open>str\<close>, \<^verbatim>\<open>sorted\<close> and \<^verbatim>\<open>str.encode\<close>.
\<close>

datatype py_error =
  BencodeDecodeError | BencodeEncodeError | ValueError | TypeError | UnicodeEncodeError

text \<open>
  \<^verbatim>\<open>Union[str, bytes]\<close>: the argument of \<^verbatim>\<open>decode\<close>, the result of \<^verbatim>\<open>_decode_str\<close>
  and the keys of a dict. \<^verbatim>\<open>_encode_dict\<close> is annotated \<^verbatim>\<open>dict[str, TypeEncodable]\<close>,
  its tests pass \<^verbatim>\<open>bytes\<close> keys, and \<^verbatim>\<open>_decode_dict\<close> builds keys of both kinds; keys of
  other hashable types are outside this model.
\<close>

datatype str_or_bytes = is_Str: Str (the_str: pystr) | is_Bytes: Bytes (the_bytes: bytes)

text \<open>
  The constructors follow the \<^verbatim>\<open>isinstance\<close> tests of \<^verbatim>\<open>encode\<close>; \<open>POther\<close> stands for
  a value of any other type (\<^verbatim>\<open>None\<close>, a float, a tuple). A dict is the list of its
  items in insertion order; Python keeps its keys pairwise distinct.
\<close>

datatype pyval =
    PBool bool
  | PBytes bytes
  | PDict "(str_or_bytes \<times> pyval) list"
  | PInt int
  | PList "pyval list"
  | PStr pystr
  | POther

definition key_val :: "str_or_bytes \<Rightarrow> pyval" where
  "key_val k = (case k of Str s \<Rightarrow> PStr s | Bytes b \<Rightarrow> PBytes b)"

definition dict_wf :: "(str_or_bytes \<times> pyval) list \<Rightarrow> bool" where
  "dict_wf kvs = distinct (map fst kvs)"

definition INTEGER :: bytes where "INTEGER = ''i''"
definition LIST :: bytes where "LIST = ''l''"
definition DICT :: bytes where "DICT = ''d''"
definition END :: bytes where "END = ''e''"
definition COLON :: bytes where "COLON = '':''"

section \<open>The built-ins the module relies on\<close>

subsection \<open>Slicing and searching\<close>

text \<open>
  \<^verbatim>\<open>data[lo:hi]\<close> never raises: a negative bound counts from the end, and every bound
  is clamped to \<open>0..len\<close>.
\<close>

definition norm_index :: "nat \<Rightarrow> int \<Rightarrow> nat" where
  "norm_index n i =
     (if i < 0 then (if int n + i < 0 then 0 else nat (int n + i))
      else if int n < i then n else nat i)"

definition slice :: "'a list \<Rightarrow> int \<Rightarrow> int \<Rightarrow> 'a list" where
  "slice xs lo hi =
     (let s = norm_index (length xs) lo; e = norm_index (length xs) hi
      in take (e - s) (drop s xs))"

text \<open>
  \<^verbatim>\<open>data.index(sub, start)\<close>: the lowest position at or after \<open>start\<close> (read as a slice
  bound) where \<open>sub\<close> occurs, \<^verbatim>\<open>ValueError\<close> when there is none.
\<close>

fun find_sub :: "bytes \<Rightarrow> bytes \<Rightarrow> nat option" where
  "find_sub sub [] = (if sub = [] then Some 0 else None)"
| "find_sub sub (x # xs) =
     (if take (length sub) (x # xs) = sub then Some 0
      else map_option Suc (find_sub sub xs))"

definition bytes_index :: "bytes \<Rightarrow> bytes \<Rightarrow> int \<Rightarrow> py_error + int" where
  "bytes_index data sub start =
     (let s = norm_index (length data) start
      in case find_sub sub (drop s data) of
           None \<Rightarrow> Inl ValueError
         | Some j \<Rightarrow> Inr (int (s + j)))"

subsection \<open>Decimal conversion\<close>

text \<open>
  \<^verbatim>\<open>str(n).encode("utf-8")\<close> for an integer: the decimal digits, after \<^verbatim>\<open>-\<close> when
  negative. \<^verbatim>\<open>int(b)\<close> for a bytes object: optional ASCII whitespace, an optional sign,
  decimal digits in groups separated by single underscores, optional whitespace.

  Both conversions raise \<^verbatim>\<open>ValueError\<close> beyond \<^verbatim>\<open>sys.get_int_max_str_digits()\<close> digits,
  which is 4300 unless the interpreter is started with another setting: \<^verbatim>\<open>str(n)\<close> when
  \<open>n\<close> has more decimal digits, \<^verbatim>\<open>int(b)\<close> when \<open>b\<close> holds more digit characters
  (leading zeros count; the sign, the underscores and the whitespace do not). The other
  limit of the interpreter, on the depth of recursion, is not modelled.
\<close>

definition max_str_digits :: nat where
  "max_str_digits = 4300"

definition is_digit :: "char \<Rightarrow> bool" where
  "is_digit c = (48 \<le> (of_char c :: nat) \<and> (of_char c :: nat) \<le> 57)"

definition is_space :: "char \<Rightarrow> bool" where
  "is_space c = ((of_char c :: nat) \<in> {9, 10, 11, 12, 13, 32})"

definition isdigit :: "bytes \<Rightarrow> bool" where
  "isdigit b = (b \<noteq> [] \<and> list_all is_digit b)"

definition digit_char :: "nat \<Rightarrow> char" where
  "digit_char d = char_of (48 + d)"

fun digits_of :: "nat \<Rightarrow> bytes" where
  "digits_of n = (if n < 10 then [digit_char n] else digits_of (n div 10) @ [digit_char (n mod 10)])"

declare digits_of.simps [simp del]

definition str_int :: "int \<Rightarrow> py_error + bytes" where
  "str_int n =
     (let digits = digits_of (nat \<bar>n\<bar>) in
      if length digits \<le> max_str_digits
      then Inr (if n < 0 then CHR ''-'' # digits else digits)
      else Inl ValueError)"

fun digit_groups :: "bytes \<Rightarrow> bool" where
  "digit_groups [] = False"
| "digit_groups [c] = is_digit c"
| "digit_groups (c # d # r) =
     (is_digit c \<and> (if d = CHR ''_'' then digit_groups r else digit_groups (d # r)))"

definition dec_value :: "bytes \<Rightarrow> nat" where
  "dec_value b = foldl (\<lambda>a c. 10 * a + (of_char c - 48)) 0 (filter is_digit b)"

definition int_body :: "char \<Rightarrow> bool" where
  "int_body c = (is_digit c \<or> c = CHR ''_'')"

definition py_int :: "bytes \<Rightarrow> py_error + int" where
  "py_int b =
     (let s1 = dropWhile is_space b;
          neg = (s1 \<noteq> [] \<and> hd s1 = CHR ''-'');
          s2 = (if s1 \<noteq> [] \<and> (hd s1 = CHR ''+'' \<or> hd s1 = CHR ''-'') then tl s1 else s1);
          body = takeWhile int_body s2;
          rest = dropWhile int_body s2
      in if digit_groups body \<and> length (filter is_digit body) \<le> max_str_digits \<and>
            dropWhile is_space rest = []
         then Inr (if neg then - int (dec_value body) else int (dec_value body))
         else Inl ValueError)"

subsection \<open>UTF-8\<close>

text \<open>
  \<^verbatim>\<open>s.encode("utf-8")\<close> raises \<^verbatim>\<open>UnicodeEncodeError\<close> on a surrogate code point. A Python
  string holds no code point above \<open>0x10FFFF\<close>; the model rejects such a number in the
  same way. \<open>None\<close> is the exception.
\<close>

definition utf8_char :: "nat \<Rightarrow> bytes option" where
  "utf8_char cp =
     (if cp < 0x80 then Some [char_of cp]
      else if cp < 0x800 then Some [char_of (0xC0 + cp div 64), char_of (0x80 + cp mod 64)]
      else if cp < 0x10000 then
        (if 0xD800 \<le> cp \<and> cp \<le> 0xDFFF then None
         else Some [char_of (0xE0 + cp div 4096), char_of (0x80 + cp div 64 mod 64),
                    char_of (0x80 + cp mod 64)])
      else if cp < 0x110000 then
        Some [char_of (0xF0 + cp div 262144), char_of (0x80 + cp div 4096 mod 64),
              char_of (0x80 + cp div 64 mod 64), char_of (0x80 + cp mod 64)]
      else None)"

fun utf8_encode :: "pystr \<Rightarrow> bytes option" where
  "utf8_encode [] = Some []"
| "utf8_encode (cp # s) =
     (case utf8_char cp of
        None \<Rightarrow> None
      | Some b \<Rightarrow> (case utf8_encode s of None \<Rightarrow> None | Some r \<Rightarrow> Some (b @ r)))"

text \<open>
  \<^verbatim>\<open>b.decode("utf-8")\<close>, strict: a lead byte announces one to four bytes, every further
  byte is a continuation byte \<open>0x80..0xBF\<close>, and overlong forms, surrogates and values
  above \<open>0x10FFFF\<close> are refused. \<open>None\<close> is \<^verbatim>\<open>UnicodeDecodeError\<close>.
\<close>

definition cont :: "char \<Rightarrow> bool" where
  "cont c = (0x80 \<le> (of_char c :: nat) \<and> (of_char c :: nat) < 0xC0)"

definition cbits :: "char \<Rightarrow> nat" where
  "cbits c = of_char c - 0x80"

fun utf8_decode :: "bytes \<Rightarrow> pystr option" where
  "utf8_decode [] = Some []"
| "utf8_decode (b0 # bs) =
     (let n0 = (of_char b0 :: nat) in
      if n0 < 0x80 then map_option ((#) n0) (utf8_decode bs)
      else if n0 < 0xC0 then None
      else if n0 < 0xE0 then
        (case bs of
           b1 # r \<Rightarrow>
             (let cp = (n0 - 0xC0) * 64 + cbits b1 in
              if cont b1 \<and> 0x80 \<le> cp then map_option ((#) cp) (utf8_decode r) else None)
         | _ \<Rightarrow> None)
      else if n0 < 0xF0 then
        (case bs of
           b1 # b2 # r \<Rightarrow>
             (let cp = (n0 - 0xE0) * 4096 + cbits b1 * 64 + cbits b2 in
              if cont b1 \<and> cont b2 \<and> 0x800 \<le> cp \<and> \<not> (0xD800 \<le> cp \<and> cp \<le> 0xDFFF)
              then map_option ((#) cp) (utf8_decode r) else None)
         | _ \<Rightarrow> None)
      else if n0 < 0xF8 then
        (case bs of
           b1 # b2 # b3 # r \<Rightarrow>
             (let cp = (n0 - 0xF0) * 262144 + cbits b1 * 4096 + cbits b2 * 64 + cbits b3 in
              if cont b1 \<and> cont b2 \<and> cont b3 \<and> 0x10000 \<le> cp \<and> cp < 0x110000
              then map_option ((#) cp) (utf8_decode r) else None)
         | _ \<Rightarrow> None)
      else None)"

section \<open>The encoder\<close>

definition encode_bytes :: "bytes \<Rightarrow> py_error + bytes" where
  "encode_bytes value =
     (case str_int (int (length value)) of
        Inl e \<Rightarrow> Inl e
      | Inr len \<Rightarrow> Inr (len @ COLON @ value))"

definition encode_int :: "int \<Rightarrow> py_error + bytes" where
  "encode_int value =
     (case str_int value of
        Inl e \<Rightarrow> Inl e
      | Inr digits \<Rightarrow> Inr (INTEGER @ digits @ END))"

definition encode_bool :: "bool \<Rightarrow> py_error + bytes" where
  "encode_bool value = encode_int (if value then 1 else 0)"

definition encode_str :: "pystr \<Rightarrow> py_error + bytes" where
  "encode_str value =
     (case utf8_encode value of
        None \<Rightarrow> Inl UnicodeEncodeError
      | Some b \<Rightarrow> encode_bytes b)"

text \<open>
  \<^verbatim>\<open>sorted(value.items())\<close> compares the items as tuples. The keys of a dict are
  pairwise different, so the comparison of two items is the comparison of their
  keys and never reaches the values. Two strings, or two bytes objects, compare
  lexicographically; \<^verbatim>\<open><\<close> between a string and a bytes object raises
  \<^verbatim>\<open>TypeError\<close>, and a sort of keys of both kinds cannot finish without such a
  comparison.
\<close>

definition sorted_items ::
  "(str_or_bytes \<times> 'v) list \<Rightarrow> py_error + (str_or_bytes \<times> 'v) list" where
  "sorted_items items =
     (if list_all (\<lambda>kv. is_Str (fst kv)) items
        then Inr (sort_key (\<lambda>kv. the_str (fst kv)) items)
      else if list_all (\<lambda>kv. is_Bytes (fst kv)) items
        then Inr (sort_key (\<lambda>kv. the_bytes (fst kv)) items)
      else Inl TypeError)"

text \<open>
  \<^verbatim>\<open>b"".join(result)\<close> over the pieces appended by a loop whose body may raise: the
  first exception in the order of the loop, otherwise the concatenation.
\<close>

fun join_results :: "(py_error + bytes) list \<Rightarrow> py_error + bytes" where
  "join_results [] = Inr []"
| "join_results (r # rs) =
     (case r of
        Inl e \<Rightarrow> Inl e
      | Inr b \<Rightarrow> (case join_results rs of Inl e \<Rightarrow> Inl e | Inr bs \<Rightarrow> Inr (b @ bs)))"

function encode :: "pyval \<Rightarrow> py_error + bytes"
  and encode_dict :: "(str_or_bytes \<times> pyval) list \<Rightarrow> py_error + bytes"
  and encode_list :: "pyval list \<Rightarrow> py_error + bytes"
where
  "encode (PBool b) = encode_bool b"
| "encode (PBytes b) = encode_bytes b"
| "encode (PDict kvs) = encode_dict kvs"
| "encode (PInt n) = encode_int n"
| "encode (PList xs) = encode_list xs"
| "encode (PStr s) = encode_str s"
| "encode POther = Inl BencodeEncodeError"
| "encode_dict value =
     (case sorted_items value of
        Inl e \<Rightarrow> Inl e
      | Inr sorted_dict \<Rightarrow>
          (case join_results
                  (concat (map (\<lambda>kv. [encode (key_val (fst kv)), encode (snd kv)]) sorted_dict)) of
             Inl e \<Rightarrow> Inl e
           | Inr body \<Rightarrow> Inr (DICT @ body @ END)))"
| "encode_list data =
     (case join_results (map encode data) of
        Inl e \<Rightarrow> Inl e
      | Inr body \<Rightarrow> Inr (LIST @ body @ END))"
  by pat_completeness auto

termination
proof (relation "measure (\<lambda>x. case x of
          Inl v \<Rightarrow> 2 * size v + 1
        | Inr (Inl kvs) \<Rightarrow> 2 * size (PDict kvs)
        | Inr (Inr xs) \<Rightarrow> 2 * size (PList xs))", goal_cases)
  case 1
  show ?case by simp
next
  case (2 kvs)
  show ?case by simp
next
  case (3 xs)
  show ?case by simp
next
  case (4 "value" s kv)
  show ?case by (cases "fst kv") (simp_all add: key_val_def)
next
  case (5 "value" s kv)
  have mem: "size (snd y) < Suc (size_list (size_prod (\<lambda>_. 0) size) ys)"
    if "y \<in> set ys" for y :: "str_or_bytes \<times> pyval" and ys
    using that by (induction ys) auto
  from 5 have "set s = set value"
    by (auto simp: sorted_items_def split: if_splits)
  with 5 have "kv \<in> set value" by simp
  then show ?case using mem [of kv "value"] by simp
next
  case (6 data x)
  then have "size x < Suc (size_list size data)"
    by (simp add: size_list_estimation' less_Suc_eq_le)
  then show ?case by simp
qed

section \<open>The decoder\<close>

definition decode_int :: "bytes \<Rightarrow> int \<Rightarrow> py_error + int \<times> int" where
  "decode_int data i0 =
     (let i = i0 + 1 in
      case bytes_index data END i of
        Inl e \<Rightarrow> Inl e
      | Inr end_idx \<Rightarrow>
          (case py_int (slice data i end_idx) of
             Inl e \<Rightarrow> Inl e
           | Inr num \<Rightarrow> Inr (num, end_idx + 1)))"

text \<open>The \<^verbatim>\<open>try\<close> of \<^verbatim>\<open>_decode_str\<close>: text when the bytes are valid UTF-8, the bytes otherwise.\<close>

definition text_of :: "bytes \<Rightarrow> str_or_bytes" where
  "text_of byte_string =
     (case utf8_decode byte_string of Some s \<Rightarrow> Str s | None \<Rightarrow> Bytes byte_string)"

definition decode_str :: "bytes \<Rightarrow> int \<Rightarrow> py_error + str_or_bytes \<times> int" where
  "decode_str data i =
     (case bytes_index data COLON i of
        Inl e \<Rightarrow> Inl e
      | Inr colon_idx \<Rightarrow>
          (case py_int (slice data i colon_idx) of
             Inl e \<Rightarrow> Inl e
           | Inr len \<Rightarrow>
               (let start = colon_idx + 1;
                    byte_string = slice data start (start + len)
                in Inr (text_of byte_string, start + len))))"

text \<open>
  \<^verbatim>\<open>_decode\<close>, \<^verbatim>\<open>_decode_dict\<close> and \<^verbatim>\<open>_decode_list\<close> call each other, and nothing
  in the source bounds the number of calls or of turns of the two \<^verbatim>\<open>while\<close> loops
  (\<open>decode_dict_loop\<close>, \<open>decode_list_loop\<close>, with the loop variables as arguments). The
  first argument is fuel: one unit for each call of \<^verbatim>\<open>_decode\<close> and each test of a loop
  condition; \<open>None\<close> means that the fuel ran out before the source would have returned
  or raised.
\<close>

function (sequential) decode_at :: "nat \<Rightarrow> bytes \<Rightarrow> int \<Rightarrow> (py_error + pyval \<times> int) option"
  and decode_dict :: "nat \<Rightarrow> bytes \<Rightarrow> int \<Rightarrow> (py_error + pyval \<times> int) option"
  and decode_dict_loop ::
    "nat \<Rightarrow> bytes \<Rightarrow> int \<Rightarrow> (str_or_bytes \<times> pyval) list \<Rightarrow> (py_error + pyval \<times> int) option"
  and decode_list :: "nat \<Rightarrow> bytes \<Rightarrow> int \<Rightarrow> (py_error + pyval \<times> int) option"
  and decode_list_loop ::
    "nat \<Rightarrow> bytes \<Rightarrow> int \<Rightarrow> pyval list \<Rightarrow> (py_error + pyval \<times> int) option"
where
  "decode_at 0 encoded i = None"
| "decode_at (Suc n) encoded i =
     (let char = slice encoded i (i + 1) in
      if char = INTEGER then
        Some (case decode_int encoded i of Inl e \<Rightarrow> Inl e | Inr (num, j) \<Rightarrow> Inr (PInt num, j))
      else if isdigit char then
        Some (case decode_str encoded i of Inl e \<Rightarrow> Inl e | Inr (s, j) \<Rightarrow> Inr (key_val s, j))
      else if char = DICT then decode_dict n encoded i
      else if char = LIST then decode_list n encoded i
      else Some (Inl BencodeDecodeError))"
| "decode_dict n data i = decode_dict_loop n data (i + 1) []"
| "decode_dict_loop 0 data i result = None"
| "decode_dict_loop (Suc n) data i result =
     (if slice data i (i + 1) \<noteq> END then
        (case decode_str data i of
           Inl e \<Rightarrow> Some (Inl e)
         | Inr (key, j) \<Rightarrow>
             (case decode_at n data j of
                None \<Rightarrow> None
              | Some (Inl e) \<Rightarrow> Some (Inl e)
              | Some (Inr (v, k)) \<Rightarrow> decode_dict_loop n data k (AList.update key v result)))
      else Some (Inr (PDict result, i + 1)))"
| "decode_list n data i = decode_list_loop n data (i + 1) []"
| "decode_list_loop 0 data i items = None"
| "decode_list_loop (Suc n) data i items =
     (if slice data i (i + 1) \<noteq> END then
        (case decode_at n data i of
           None \<Rightarrow> None
         | Some (Inl e) \<Rightarrow> Some (Inl e)
         | Some (Inr (item, j)) \<Rightarrow> decode_list_loop n data j (items @ [item]))
      else Some (Inr (PList items, i + 1)))"
  by pat_completeness auto

termination
  by (relation "measures
        [\<lambda>x. case x of
           Inl (Inl (n, _)) \<Rightarrow> n
         | Inl (Inr (n, _)) \<Rightarrow> n
         | Inr (Inl (n, _)) \<Rightarrow> n
         | Inr (Inr (Inl (n, _))) \<Rightarrow> n
         | Inr (Inr (Inr (n, _))) \<Rightarrow> n,
         \<lambda>x. case x of
           Inl (Inr _) \<Rightarrow> Suc 0
         | Inr (Inr (Inl _)) \<Rightarrow> Suc 0
         | _ \<Rightarrow> 0]") simp_all

definition decode :: "nat \<Rightarrow> str_or_bytes \<Rightarrow> (py_error + pyval) option" where
  "decode fuel data0 =
     (case (case data0 of
              Str s \<Rightarrow> (case utf8_encode s of None \<Rightarrow> Inl UnicodeEncodeError | Some b \<Rightarrow> Inr b)
            | Bytes b \<Rightarrow> Inr b) of
        Inl e \<Rightarrow> Some (Inl e)
      | Inr data \<Rightarrow>
          (case decode_at fuel data 0 of
             None \<Rightarrow> None
           | Some (Inl e) \<Rightarrow> Some (Inl e)
           | Some (Inr (result, len)) \<Rightarrow>
               if int (length data) \<noteq> len then Some (Inl BencodeDecodeError)
               else Some (Inr result)))"

section \<open>Notions used to state the properties\<close>

text \<open>The bytes a key stands for on the wire: itself, or its UTF-8 form.\<close>

definition key_bytes :: "str_or_bytes \<Rightarrow> bytes" where
  "key_bytes k =
     (case k of
        Bytes b \<Rightarrow> b
      | Str s \<Rightarrow> (case utf8_encode s of Some b \<Rightarrow> b | None \<Rightarrow> []))"

text \<open>A string that \<^verbatim>\<open>str.encode\<close> accepts: code points in range, none a surrogate.\<close>

definition str_ok :: "pystr \<Rightarrow> bool" where
  "str_ok s = list_all (\<lambda>cp. cp < 0x110000 \<and> \<not> (0xD800 \<le> cp \<and> cp \<le> 0xDFFF)) s"

text \<open>
  A natural number that \<^verbatim>\<open>str\<close> prints: it has at most \<open>max_str_digits\<close> decimal digits.
  The length of a \<^verbatim>\<open>bytes\<close> object is below \<open>2\<^sup>6\<^sup>3\<close> and always is such a number; the
  lists of the model can be longer.
\<close>

definition within_limit :: "nat \<Rightarrow> bool" where
  "within_limit n = (length (digits_of n) \<le> max_str_digits)"

definition key_ok :: "str_or_bytes \<Rightarrow> bool" where
  "key_ok k =
     (case k of
        Str s \<Rightarrow> str_ok s \<and> within_limit (length (key_bytes k))
      | Bytes b \<Rightarrow> within_limit (length b))"

text \<open>The invariant of Python's dict, at every level: no key occurs twice.\<close>

fun value_wf :: "pyval \<Rightarrow> bool" where
  "value_wf (PDict kvs) = (dict_wf kvs \<and> list_all (\<lambda>kv. value_wf (snd kv)) kvs)"
| "value_wf (PList xs) = list_all value_wf xs"
| "value_wf _ = True"

text \<open>
  The values built, at every level, from the types \<^verbatim>\<open>encode\<close> recognises, whose
  integers \<^verbatim>\<open>str\<close> prints, whose strings \<^verbatim>\<open>str.encode\<close> accepts and whose dicts
  have keys of one kind each.
\<close>

fun encodable :: "pyval \<Rightarrow> bool" where
  "encodable (PBool b) = True"
| "encodable (PBytes b) = within_limit (length b)"
| "encodable (PDict kvs) =
     ((list_all (\<lambda>kv. is_Str (fst kv)) kvs \<or> list_all (\<lambda>kv. is_Bytes (fst kv)) kvs) \<and>
      list_all (\<lambda>kv. key_ok (fst kv) \<and> encodable (snd kv)) kvs)"
| "encodable (PInt n) = within_limit (nat \<bar>n\<bar>)"
| "encodable (PList xs) = list_all encodable xs"
| "encodable (PStr s) = (str_ok s \<and> within_limit (length (key_bytes (Str s))))"
| "encodable POther = False"

text \<open>
  The equivalence under which a decoded value is compared with the value that was
  encoded: a string is identified with its UTF-8 bytes, \<^verbatim>\<open>True\<close> and \<^verbatim>\<open>False\<close> are
  \<open>1\<close> and \<open>0\<close> and the order of the items of a dict is immaterial (both as for
  Python's \<^verbatim>\<open>==\<close>). \<open>canon\<close> computes the representative of a value.
\<close>

fun canon :: "pyval \<Rightarrow> pyval" where
  "canon (PBool b) = PInt (if b then 1 else 0)"
| "canon (PBytes b) = PBytes b"
| "canon (PDict kvs) =
     PDict (sort_key (\<lambda>kv. the_bytes (fst kv))
              (map (\<lambda>kv. (Bytes (key_bytes (fst kv)), canon (snd kv))) kvs))"
| "canon (PInt n) = PInt n"
| "canon (PList xs) = PList (map canon xs)"
| "canon (PStr s) = (case utf8_encode s of Some b \<Rightarrow> PBytes b | None \<Rightarrow> PStr s)"
| "canon POther = POther"

definition py_equiv :: "pyval \<Rightarrow> pyval \<Rightarrow> bool" where
  "py_equiv v w = (canon v = canon w)"

text \<open>
  The dict that the loop of \<^verbatim>\<open>_decode_dict\<close> builds from \<open>result\<close> by the assignments
  \<^verbatim>\<open>result[key] = value\<close>, in the order of the items.
\<close>

definition dict_assign ::
  "(str_or_bytes \<times> pyval) list \<Rightarrow> (str_or_bytes \<times> pyval) list \<Rightarrow> (str_or_bytes \<times> pyval) list" where
  "dict_assign result items = foldl (\<lambda>d kv. AList.update (fst kv) (snd kv) d) result items"

text \<open>The value the decoder rebuilds from the bytes that \<^verbatim>\<open>encode\<close> emits for a value.\<close>

definition the_sorted :: "(str_or_bytes \<times> 'v) list \<Rightarrow> (str_or_bytes \<times> 'v) list" where
  "the_sorted kvs = (case sorted_items kvs of Inr s \<Rightarrow> s | Inl e \<Rightarrow> kvs)"

function readback :: "pyval \<Rightarrow> pyval" where
  "readback (PBool b) = PInt (if b then 1 else 0)"
| "readback (PBytes b) = key_val (text_of b)"
| "readback (PDict kvs) =
     PDict (dict_assign []
              (map (\<lambda>kv. (text_of (key_bytes (fst kv)), readback (snd kv))) (the_sorted kvs)))"
| "readback (PInt n) = PInt n"
| "readback (PList xs) = PList (map readback xs)"
| "readback (PStr s) = key_val (text_of (key_bytes (Str s)))"
| "readback POther = POther"
  by pat_completeness auto

termination
proof (relation "measure size", goal_cases)
  case 1
  show ?case by simp
next
  case (2 kvs kv)
  have mem: "size (snd y) < Suc (size_list (size_prod (\<lambda>_. 0) size) ys)"
    if "y \<in> set ys" for y :: "str_or_bytes \<times> pyval" and ys
    using that by (induction ys) auto
  have "set (the_sorted kvs) = set kvs"
    by (auto simp: the_sorted_def sorted_items_def split: if_splits)
  with 2 have "kv \<in> set kvs" by simp
  then show ?case using mem [of kv kvs] by simp
next
  case (3 xs x)
  then have "size x < Suc (size_list size xs)"
    by (simp add: size_list_estimation' less_Suc_eq_le)
  then show ?case by simp
qed

text \<open>
  \<open>decodes_to b v\<close>: wherever the bytes \<open>b\<close> stand in a buffer, \<^verbatim>\<open>_decode\<close> started at
  their first byte returns \<open>v\<close> and the position after their last byte, given enough fuel.
\<close>

definition decodes_to :: "bytes \<Rightarrow> pyval \<Rightarrow> bool" where
  "decodes_to b v =
     (\<exists>n. \<forall>m\<ge>n. \<forall>pre post.
        decode_at m (pre @ b @ post) (int (length pre)) = Some (Inr (v, int (length pre + length b))))"

text \<open>
  Two lists that first differ at a position where the first has the smaller element;
  this is the lexicographic order without the case of a proper prefix.
\<close>

definition differs_below :: "'a::linorder list \<Rightarrow> 'a list \<Rightarrow> bool" where
  "differs_below u v = (\<exists>p a b r1 r2. u = p @ a # r1 \<and> v = p @ b # r2 \<and> a < b)"

section \<open>Errors that leave the decoder\<close>

text \<open>
  C4. The claim: for every input buffer, \<^verbatim>\<open>decode\<close> either returns a value or raises
  \<^verbatim>\<open>BencodeDecodeError\<close>, and no other error escapes. On the one-byte buffer \<^verbatim>\<open>b"5"\<close>
  the digit sends \<^verbatim>\<open>_decode\<close> to \<^verbatim>\<open>_decode_str\<close>, whose \<^verbatim>\<open>data.index(COLON, i)\<close> finds
  no colon: the \<^verbatim>\<open>ValueError\<close> of the built-in is what the caller receives.
\<close>

theorem decode_digit_without_colon_raises_ValueError:
  "decode 1 (Bytes ''5'') = Some (Inl ValueError)"
  by code_simp

text \<open>
  C5. The claim: when the byte at the cursor is \<^verbatim>\<open>i\<close> and no \<^verbatim>\<open>e\<close> follows, decoding
  fails with a decode error. On \<^verbatim>\<open>b"i5"\<close> decoding does fail, but the exception is the
  \<^verbatim>\<open>ValueError\<close> of \<^verbatim>\<open>data.index(END, i)\<close>, not \<^verbatim>\<open>BencodeDecodeError\<close>.
\<close>

theorem decode_int_without_terminator_raises_ValueError:
  "decode 1 (Bytes ''i5'') = Some (Inl ValueError)"
  by code_simp

text \<open>
  C6. The claim: a list or dict that is opened and never closed makes \<^verbatim>\<open>decode\<close> fail
  with \<^verbatim>\<open>BencodeDecodeError\<close>. On \<^verbatim>\<open>b"d"\<close> the loop of \<^verbatim>\<open>_decode_dict\<close> calls
  \<^verbatim>\<open>_decode_str\<close> at the end of the buffer and \<^verbatim>\<open>ValueError\<close> escapes.
\<close>

theorem decode_unclosed_dict_raises_ValueError:
  "decode 2 (Bytes ''d'') = Some (Inl ValueError)"
  by code_simp

text \<open>The sibling loop of \<^verbatim>\<open>_decode_list\<close> raises the module's own error on \<^verbatim>\<open>b"l"\<close>.\<close>

lemma decode_unclosed_list_raises_DecodeError:
  "decode 3 (Bytes ''l'') = Some (Inl BencodeDecodeError)"
  by code_simp

section \<open>The encoder: which values it accepts\<close>

lemma utf8_char_ok: "(utf8_char cp \<noteq> None) = (cp < 0x110000 \<and> \<not> (0xD800 \<le> cp \<and> cp \<le> 0xDFFF))"
  by (auto simp: utf8_char_def)

lemma utf8_encode_ok: "(utf8_encode s \<noteq> None) = str_ok s"
proof (induction s)
  case Nil
  show ?case by (simp add: str_ok_def)
next
  case (Cons cp s)
  have "(utf8_encode (cp # s) \<noteq> None) = (utf8_char cp \<noteq> None \<and> utf8_encode s \<noteq> None)"
    by (simp split: option.splits)
  with Cons utf8_char_ok [of cp] show ?case by (simp add: str_ok_def)
qed

lemma join_results_Inr:
  "(\<exists>b. join_results rs = Inr b) = (\<forall>r\<in>set rs. \<exists>b. r = Inr b)"
  by (induction rs) (auto split: sum.splits)

lemma join_results_all:
  "join_results rs = Inr body \<Longrightarrow> r \<in> set rs \<Longrightarrow> \<exists>b. r = Inr b"
  using join_results_Inr [of rs] by blast

subsection \<open>The limit on the number of digits\<close>

lemma digits_of_small: "n < 10 \<Longrightarrow> digits_of n = [digit_char n]"
  by (subst digits_of.simps) simp

lemma digits_of_long: "10 ^ k \<le> n \<Longrightarrow> k < length (digits_of n)"
proof (induction k arbitrary: n)
  case 0
  show ?case by (subst digits_of.simps) simp
next
  case (Suc k)
  have "(1::nat) \<le> 10 ^ k" by simp
  moreover from Suc.prems have "10 * 10 ^ k \<le> n" by simp
  ultimately have big: "\<not> n < 10" by linarith
  from Suc.prems have "10 ^ k \<le> n div 10"
    by (simp add: less_eq_div_iff_mult_less_eq mult.commute)
  then have "k < length (digits_of (n div 10))" by (rule Suc.IH)
  with big show ?case by (subst digits_of.simps) simp
qed

lemma within_limit_small: "n < 10 \<Longrightarrow> within_limit n"
  by (simp add: within_limit_def digits_of_small max_str_digits_def)

lemma str_int_Inr:
  "(str_int n = Inr s) =
     (within_limit (nat \<bar>n\<bar>) \<and>
      s = (if n < 0 then CHR ''-'' # digits_of (nat \<bar>n\<bar>) else digits_of (nat \<bar>n\<bar>)))"
  by (auto simp: str_int_def within_limit_def Let_def)

lemma str_int_Inl: "(str_int n = Inl e) = (\<not> within_limit (nat \<bar>n\<bar>) \<and> e = ValueError)"
  by (auto simp: str_int_def within_limit_def Let_def)

lemma encode_int_Inr:
  "(encode_int n = Inr b) = (\<exists>s. str_int n = Inr s \<and> b = INTEGER @ s @ END)"
  by (auto simp: encode_int_def split: sum.splits)

lemma encode_int_ok: "within_limit (nat \<bar>n\<bar>) \<Longrightarrow> \<exists>b. encode_int n = Inr b"
  by (simp add: encode_int_Inr str_int_Inr)

lemma encode_bytes_Inr:
  "(encode_bytes k = Inr b) =
     (within_limit (length k) \<and> b = digits_of (length k) @ CHR '':'' # k)"
  by (auto simp: encode_bytes_def str_int_Inr str_int_Inl COLON_def split: sum.splits)

lemma encode_bytes_ok: "within_limit (length k) \<Longrightarrow> \<exists>b. encode_bytes k = Inr b"
  by (simp add: encode_bytes_Inr)

lemma encode_int_too_long: "encode (PInt (10 ^ max_str_digits)) = Inl ValueError"
proof -
  have eq: "nat \<bar>(10::int) ^ max_str_digits\<bar> = 10 ^ max_str_digits"
    by (simp add: nat_power_eq)
  have "max_str_digits < length (digits_of (10 ^ max_str_digits))"
    by (rule digits_of_long) simp
  then have "\<not> within_limit (nat \<bar>(10::int) ^ max_str_digits\<bar>)"
    unfolding eq within_limit_def by simp
  then have "str_int (10 ^ max_str_digits) = Inl ValueError"
    by (simp only: str_int_Inl simp_thms)
  then show ?thesis by (simp add: encode_int_def)
qed

subsection \<open>The values that \<^verbatim>\<open>encode\<close> accepts\<close>

lemma encode_key_ok: "key_ok k \<Longrightarrow> \<exists>b. encode (key_val k) = Inr b"
proof (cases k)
  case (Str s)
  assume "key_ok k"
  with Str have ok: "str_ok s" and lim: "within_limit (length (key_bytes (Str s)))"
    by (simp_all add: key_ok_def)
  from ok obtain u where u: "utf8_encode s = Some u" using utf8_encode_ok [of s] by auto
  with lim have "within_limit (length u)" by (simp add: key_bytes_def)
  then show ?thesis using Str u encode_bytes_ok [of u] by (simp add: key_val_def encode_str_def)
next
  case (Bytes b)
  assume "key_ok k"
  with Bytes show ?thesis using encode_bytes_ok [of b] by (simp add: key_ok_def key_val_def)
qed

lemma sorted_items_ok:
  "list_all (\<lambda>kv. is_Str (fst kv)) kvs \<or> list_all (\<lambda>kv. is_Bytes (fst kv)) kvs
    \<Longrightarrow> \<exists>s. sorted_items kvs = Inr s \<and> set s = set kvs"
  by (auto simp: sorted_items_def)

lemma encodable_encodes_aux:
  "(encodable v \<longrightarrow> (\<exists>b. encode v = Inr b))"
  "(encodable (PDict kvs) \<longrightarrow> (\<exists>b. encode_dict kvs = Inr b))"
  "(list_all encodable xs \<longrightarrow> (\<exists>b. encode_list xs = Inr b))"
proof (induction v and kvs and xs rule: encode_encode_dict_encode_list.induct)
  case (1 b)
  have "within_limit (nat \<bar>if b then 1 else 0 :: int\<bar>)" by (simp add: within_limit_small)
  then show ?case using encode_int_ok by (simp add: encode_bool_def)
next
  case (2 b)
  show ?case using encode_bytes_ok by simp
next
  case (3 kvs)
  then show ?case by simp
next
  case (4 n)
  show ?case using encode_int_ok by simp
next
  case (5 xs)
  then show ?case by simp
next
  case (6 s)
  show ?case using encode_key_ok [of "Str s"] by (simp add: key_ok_def key_val_def)
next
  case 7
  show ?case by simp
next
  case (8 "value")
  show ?case
  proof
    assume enc: "encodable (PDict value)"
    then obtain s where s: "sorted_items value = Inr s" "set s = set value"
      using sorted_items_ok [of "value"] by auto
    have "\<forall>r\<in>set (concat (map (\<lambda>kv. [encode (key_val (fst kv)), encode (snd kv)]) s)). \<exists>b. r = Inr b"
    proof
      fix r assume "r \<in> set (concat (map (\<lambda>kv. [encode (key_val (fst kv)), encode (snd kv)]) s))"
      then obtain kv where kv: "kv \<in> set s" "r = encode (key_val (fst kv)) \<or> r = encode (snd kv)"
        by auto
      from kv s enc have ok: "key_ok (fst kv)" "encodable (snd kv)"
        by (auto simp: list_all_iff)
      from kv(2) show "\<exists>b. r = Inr b"
      proof
        assume "r = encode (key_val (fst kv))"
        with ok encode_key_ok show ?thesis by simp
      next
        assume "r = encode (snd kv)"
        with "8.IH"(2) [OF s(1) kv(1)] ok show ?thesis by simp
      qed
    qed
    then obtain body where
      "join_results (concat (map (\<lambda>kv. [encode (key_val (fst kv)), encode (snd kv)]) s)) = Inr body"
      using join_results_Inr by blast
    with s show "\<exists>b. encode_dict value = Inr b" by simp
  qed
next
  case (9 data)
  show ?case
  proof
    assume "list_all encodable data"
    with 9 have "\<forall>r\<in>set (map encode data). \<exists>b. r = Inr b"
      by (auto simp: list_all_iff)
    then obtain body where "join_results (map encode data) = Inr body"
      using join_results_Inr by blast
    then show "\<exists>b. encode_list data = Inr b" by simp
  qed
qed

text \<open>
  C8, as stated, fails in its second half: a list is a recognised type, and a list
  that holds a value of an unrecognised type makes \<^verbatim>\<open>encode\<close> raise
  \<^verbatim>\<open>BencodeEncodeError\<close> from the recursive call. Nor is it enough that every nested
  type is recognised: a dict with one text key and one bytes key, which
  \<^verbatim>\<open>_decode_dict\<close> itself can build, makes \<^verbatim>\<open>sorted\<close> raise \<^verbatim>\<open>TypeError\<close>, a
  string with a surrogate code point makes \<^verbatim>\<open>str.encode\<close> raise \<^verbatim>\<open>UnicodeEncodeError\<close>,
  and the integer \<open>10\<^sup>4\<^sup>3\<^sup>0\<^sup>0\<close>, which has 4301 digits, makes \<^verbatim>\<open>str\<close> raise \<^verbatim>\<open>ValueError\<close>.
\<close>

theorem encode_recognised_type_can_raise:
  "encode (PList [POther]) = Inl BencodeEncodeError \<and>
   encode (PDict [(Str [97], PInt 1), (Bytes [CHR 0xFF], PInt 2)]) = Inl TypeError \<and>
   encode (PStr [0xD800]) = Inl UnicodeEncodeError \<and>
   encode (PInt (10 ^ 4300)) = Inl ValueError"
proof -
  have a: "encode (PList [POther]) = Inl BencodeEncodeError" by simp
  have b: "encode (PDict [(Str [97], PInt 1), (Bytes [CHR 0xFF], PInt 2)]) = Inl TypeError"
    by (simp add: sorted_items_def)
  have c: "encode (PStr [0xD800]) = Inl UnicodeEncodeError"
    by (simp add: encode_str_def utf8_char_def)
  have d: "encode (PInt (10 ^ 4300)) = Inl ValueError"
    by (rule encode_int_too_long [unfolded max_str_digits_def])
  show ?thesis by (rule conjI [OF a conjI [OF b conjI [OF c d]]])
qed

text \<open>
  C8, amended: a value of an unrecognised type makes \<^verbatim>\<open>encode\<close> fail with
  \<^verbatim>\<open>BencodeEncodeError\<close>; and \<^verbatim>\<open>encode\<close> returns bytes for every value that is built at
  every level from the recognised types, whose integers have at most 4300 decimal
  digits (as the length of every string has), whose text strings contain no surrogate
  and whose dicts have keys of one kind each (all text or all bytes).
\<close>

theorem encode_unsupported_and_encodable:
  "encode POther = Inl BencodeEncodeError \<and> (encodable v \<longrightarrow> (\<exists>b. encode v = Inr b))"
  using encodable_encodes_aux(1) [of v] by simp

theorem encode_unsupported_and_encodable_witness:
  "encodable (PDict [(Str [102, 111, 111], PList [PInt 42, PBool True, PBytes ''spam''])])
   \<and> (\<exists>b. encode (PDict [(Str [102, 111, 111], PList [PInt 42, PBool True, PBytes ''spam''])])
            = Inr b)"
proof -
  have h: "encodable (PDict [(Str [102, 111, 111], PList [PInt 42, PBool True, PBytes ''spam''])])"
    by (simp add: key_ok_def str_ok_def key_bytes_def utf8_char_def within_limit_def
          max_str_digits_def digits_of.simps)
  show ?thesis
    using h encode_unsupported_and_encodable
      [of "PDict [(Str [102, 111, 111], PList [PInt 42, PBool True, PBytes ''spam''])]"]
    by blast
qed

section \<open>The encoder: canonical order of a dict\<close>

lemma inj_on_key:
  assumes d: "distinct (map fst xs)" and inj: "inj_on g (fst ` set xs)"
  shows "inj_on (\<lambda>kv. g (fst kv)) (set xs)"
proof (rule inj_onI)
  fix a b assume ab: "a \<in> set xs" "b \<in> set xs" "g (fst a) = g (fst b)"
  with inj have "fst a = fst b" by (auto dest: inj_onD)
  moreover from d have "inj_on fst (set xs)" by (simp add: distinct_map)
  ultimately show "a = b" using ab by (auto dest: inj_onD)
qed

lemma sort_key_perm:
  assumes "distinct (map fst xs)" "mset xs = mset ys" "inj_on g (fst ` set xs)"
  shows "sort_key (\<lambda>kv. g (fst kv)) xs = sort_key (\<lambda>kv. g (fst kv)) ys"
proof (rule sort_key_inj_key_eq)
  show "mset xs = mset (sort_key (\<lambda>kv. g (fst kv)) ys)" using assms by simp
  show "inj_on (\<lambda>kv. g (fst kv)) (set xs)" using assms inj_on_key by blast
  show "sorted (map (\<lambda>kv. g (fst kv)) (sort_key (\<lambda>kv. g (fst kv)) ys))" by simp
qed

lemma inj_the_str: "\<forall>k\<in>K. is_Str k \<Longrightarrow> inj_on the_str K"
proof (rule inj_onI)
  fix x y assume "\<forall>k\<in>K. is_Str k" "x \<in> K" "y \<in> K" "the_str x = the_str y"
  then show "x = y" by (cases x; cases y) auto
qed

lemma inj_the_bytes: "\<forall>k\<in>K. is_Bytes k \<Longrightarrow> inj_on the_bytes K"
proof (rule inj_onI)
  fix x y assume "\<forall>k\<in>K. is_Bytes k" "x \<in> K" "y \<in> K" "the_bytes x = the_bytes y"
  then show "x = y" by (cases x; cases y) auto
qed

lemma sorted_items_perm:
  assumes d: "distinct (map fst xs)" and m: "mset xs = mset ys"
  shows "sorted_items xs = sorted_items ys"
proof -
  from m have s: "set xs = set ys" by (rule mset_eq_setD)
  have h: "list_all P xs = list_all P ys" for P using s by (simp add: list_all_iff)
  show ?thesis
  proof (cases "list_all (\<lambda>kv. is_Str (fst kv)) xs")
    case True
    then have "inj_on the_str (fst ` set xs)" by (intro inj_the_str) (auto simp: list_all_iff)
    with d m have "sort_key (\<lambda>kv. the_str (fst kv)) xs = sort_key (\<lambda>kv. the_str (fst kv)) ys"
      by (rule sort_key_perm)
    with True h show ?thesis by (simp add: sorted_items_def)
  next
    case False
    note nostr = this
    show ?thesis
    proof (cases "list_all (\<lambda>kv. is_Bytes (fst kv)) xs")
      case True
      then have "inj_on the_bytes (fst ` set xs)" by (intro inj_the_bytes) (auto simp: list_all_iff)
      with d m have "sort_key (\<lambda>kv. the_bytes (fst kv)) xs = sort_key (\<lambda>kv. the_bytes (fst kv)) ys"
        by (rule sort_key_perm)
      with True nostr h show ?thesis by (simp add: sorted_items_def)
    next
      case False
      with nostr h show ?thesis by (simp add: sorted_items_def)
    qed
  qed
qed


text \<open>
  C1. Two dicts with the same items, inserted in different orders, are two lists \<open>kvs1\<close>
  and \<open>kvs2\<close> with the same multiset of items, the keys being pairwise distinct as in
  every Python dict. \<^verbatim>\<open>encode\<close> gives the same result for both: the same bytes, or
  the same exception.
\<close>

theorem encode_dict_insertion_order:
  "dict_wf kvs1 \<Longrightarrow> mset kvs1 = mset kvs2 \<Longrightarrow> encode (PDict kvs1) = encode (PDict kvs2)"
  using sorted_items_perm [of kvs1 kvs2] by (simp add: dict_wf_def)

theorem encode_dict_insertion_order_witness:
  "dict_wf [(Bytes ''foo'', PInt 42), (Bytes ''bar'', PBytes ''spam'')]
   \<and> mset [(Bytes ''foo'', PInt 42), (Bytes ''bar'', PBytes ''spam'')]
       = mset [(Bytes ''bar'', PBytes ''spam''), (Bytes ''foo'', PInt 42)]
   \<and> encode (PDict [(Bytes ''foo'', PInt 42), (Bytes ''bar'', PBytes ''spam'')])
       = encode (PDict [(Bytes ''bar'', PBytes ''spam''), (Bytes ''foo'', PInt 42)])"
proof -
  have w: "dict_wf [(Bytes ''foo'', PInt 42), (Bytes ''bar'', PBytes ''spam'')]"
    by (simp add: dict_wf_def)
  have m: "mset [(Bytes ''foo'', PInt 42), (Bytes ''bar'', PBytes ''spam'')]
       = mset [(Bytes ''bar'', PBytes ''spam''), (Bytes ''foo'', PInt 42)]"
    by simp
  show ?thesis using w m encode_dict_insertion_order [OF w m] by blast
qed

section \<open>Facts about the built-ins\<close>

lemma norm_index_nat [simp]: "norm_index n (int a) = min n a"
  by (auto simp: norm_index_def)

lemma norm_index_nat1 [simp]: "norm_index n (int a + 1) = min n (Suc a)"
  using norm_index_nat [of n "Suc a"] by (simp del: norm_index_nat add: add.commute)

lemma slice_nat: "a \<le> length xs \<Longrightarrow> slice xs (int a) (int b) = take (b - a) (drop a xs)"
  by (auto simp: slice_def min_def)

lemma slice_mid: "slice (pre @ b @ post) (int (length pre)) (int (length pre + length b)) = b"
  by (subst slice_nat) simp_all

lemma slice_mid': "slice (pre @ b @ post) (int (length pre)) (int (length pre) + int (length b)) = b"
  by (simp only: of_nat_add [symmetric] slice_mid)

lemma slice_one: "slice (pre @ c # post) (int (length pre)) (int (length pre) + 1) = [c]"
  by (simp add: slice_def)

lemma slice_end: "slice xs (int (length xs)) (int (length xs) + 1) = []"
  by (simp add: slice_def)

lemma find_sub_single:
  "find_sub [c] xs = (if c \<in> set xs then Some (length (takeWhile (\<lambda>x. x \<noteq> c) xs)) else None)"
  by (induction xs) auto

lemma bytes_index_found:
  assumes "c \<notin> set mid"
  shows "bytes_index (pre @ mid @ c # post) [c] (int (length pre)) = Inr (int (length pre + length mid))"
proof -
  have "takeWhile (\<lambda>x. x \<noteq> c) (mid @ c # post) = mid"
    by (subst takeWhile_append2) (use assms in auto)
  then show ?thesis by (simp add: bytes_index_def find_sub_single)
qed

lemma bytes_index_missing:
  "c \<notin> set (drop (norm_index (length data) i) data) \<Longrightarrow> bytes_index data [c] i = Inl ValueError"
  by (simp add: bytes_index_def find_sub_single)

lemma of_char_digit_char: "d < 10 \<Longrightarrow> (of_char (digit_char d) :: nat) = 48 + d"
  by (simp add: digit_char_def)

lemma is_digit_digit_char: "d < 10 \<Longrightarrow> is_digit (digit_char d)"
  by (simp add: is_digit_def of_char_digit_char)

lemma digits_of_digits: "list_all is_digit (digits_of n)"
proof (induction n rule: digits_of.induct)
  case (1 n)
  then show ?case by (subst digits_of.simps) (simp add: is_digit_digit_char)
qed

lemma digits_of_nonempty: "digits_of n \<noteq> []"
  by (subst digits_of.simps) simp

lemma dec_value_digits: "list_all is_digit ds \<Longrightarrow> dec_value ds = foldl (\<lambda>a c. 10 * a + (of_char c - 48)) 0 ds"
  by (simp add: dec_value_def list_all_iff)

lemma dec_value_snoc:
  "list_all is_digit ds \<Longrightarrow> is_digit c \<Longrightarrow> dec_value (ds @ [c]) = 10 * dec_value ds + (of_char c - 48)"
  by (simp add: dec_value_def list_all_iff)

lemma dec_value_digits_of: "dec_value (digits_of n) = n"
proof (induction n rule: digits_of.induct)
  case (1 n)
  show ?case
  proof (cases "n < 10")
    case True
    then show ?thesis
      by (subst digits_of.simps) (simp add: dec_value_def is_digit_digit_char of_char_digit_char)
  next
    case False
    with 1 have "dec_value (digits_of (n div 10)) = n div 10" by simp
    with False show ?thesis
      by (subst digits_of.simps)
         (simp add: dec_value_snoc digits_of_digits is_digit_digit_char of_char_digit_char)
  qed
qed

lemma dec_value_zeros:
  "list_all is_digit ds \<Longrightarrow> dec_value (replicate z (CHR ''0'') @ ds) = dec_value ds"
proof (induction z)
  case 0 show ?case by simp
next
  case (Suc z)
  have "foldl (\<lambda>a c. 10 * a + (of_char c - 48)) 0 (CHR ''0'' # xs) = foldl (\<lambda>a c. 10 * a + (of_char c - 48)) (0::nat) xs" for xs
    by simp
  with Suc show ?case by (simp add: dec_value_def is_digit_def)
qed

lemma digit_groups_digits: "ds \<noteq> [] \<Longrightarrow> list_all is_digit ds \<Longrightarrow> digit_groups ds"
proof (induction ds rule: digit_groups.induct)
  case (3 c d r)
  then have "d \<noteq> CHR ''_''" by (auto simp: is_digit_def)
  with 3 show ?case by simp
qed simp_all

lemma space_not_body: "is_space c \<Longrightarrow> \<not> int_body c"
  by (auto simp: is_space_def int_body_def is_digit_def)

lemma digit_not_space: "is_digit c \<Longrightarrow> \<not> is_space c"
  by (auto simp: is_space_def is_digit_def)

lemma digit_body: "is_digit c \<Longrightarrow> int_body c"
  by (simp add: int_body_def)

lemma body_then_spaces:
  assumes ds: "list_all is_digit ds" and ws: "list_all is_space ws"
  shows "takeWhile int_body (ds @ ws) = ds" "dropWhile is_space (dropWhile int_body (ds @ ws)) = []"
proof -
  have a: "\<And>x. x \<in> set ds \<Longrightarrow> int_body x" using ds by (simp add: list_all_iff digit_body)
  have b: "takeWhile int_body ws = []" "dropWhile int_body ws = ws"
    using ws by (cases ws; simp add: space_not_body)+
  show "takeWhile int_body (ds @ ws) = ds" using a b by (simp add: takeWhile_append2)
  have "dropWhile int_body (ds @ ws) = ws" using a b by (simp add: dropWhile_append2)
  moreover have "dropWhile is_space ws = []" using ws by (simp add: list_all_iff)
  ultimately show "dropWhile is_space (dropWhile int_body (ds @ ws)) = []" by simp
qed

lemma filter_digits: "list_all is_digit ds \<Longrightarrow> filter is_digit ds = ds"
  by (simp add: list_all_iff)

lemma py_int_unsigned:
  assumes ds: "list_all is_digit ds" "ds \<noteq> []" and w1: "list_all is_space ws1" and w2: "list_all is_space ws2"
    and lim: "length ds \<le> max_str_digits"
  shows "py_int (ws1 @ ds @ ws2) = Inr (int (dec_value ds))"
proof -
  obtain d r where dr: "ds = d # r" using ds(2) by (cases ds) auto
  with ds have d: "is_digit d" by simp
  have s1: "dropWhile is_space (ws1 @ ds @ ws2) = ds @ ws2"
    using w1 d dr by (simp add: dropWhile_append2 list_all_iff digit_not_space)
  have nosign: "d \<noteq> CHR ''+''" "d \<noteq> CHR ''-''" using d by (auto simp: is_digit_def)
  have s2: "(if ds @ ws2 \<noteq> [] \<and> (hd (ds @ ws2) = CHR ''+'' \<or> hd (ds @ ws2) = CHR ''-'')
             then tl (ds @ ws2) else ds @ ws2) = ds @ ws2"
    using nosign dr by simp
  have neg: "(ds @ ws2 \<noteq> [] \<and> hd (ds @ ws2) = CHR ''-'') = False" using nosign dr by simp
  show ?thesis
    unfolding py_int_def s1 Let_def s2 neg body_then_spaces [OF ds(1) w2] filter_digits [OF ds(1)]
    using lim digit_groups_digits [OF ds(2) ds(1)] by simp
qed

lemma py_int_signed:
  assumes ds: "list_all is_digit ds" "ds \<noteq> []" and w1: "list_all is_space ws1" and w2: "list_all is_space ws2"
    and sg: "sg = CHR ''+'' \<or> sg = CHR ''-''"
    and lim: "length ds \<le> max_str_digits"
  shows "py_int (ws1 @ sg # ds @ ws2) = Inr (if sg = CHR ''-'' then - int (dec_value ds) else int (dec_value ds))"
proof -
  have nsp: "\<not> is_space sg" using sg by (auto simp: is_space_def)
  have s1: "dropWhile is_space (ws1 @ sg # ds @ ws2) = sg # ds @ ws2"
    using w1 nsp by (simp add: dropWhile_append2 list_all_iff)
  have s2: "(if sg # ds @ ws2 \<noteq> [] \<and> (hd (sg # ds @ ws2) = CHR ''+'' \<or> hd (sg # ds @ ws2) = CHR ''-'')
             then tl (sg # ds @ ws2) else sg # ds @ ws2) = ds @ ws2"
    using sg by auto
  show ?thesis
    unfolding py_int_def s1 Let_def s2 body_then_spaces [OF ds(1) w2] filter_digits [OF ds(1)]
    using sg lim digit_groups_digits [OF ds(2) ds(1)] by auto
qed

lemma py_int_too_many_digits:
  assumes ds: "list_all is_digit ds" and lim: "max_str_digits < length ds"
  shows "py_int ds = Inl ValueError"
proof -
  from lim obtain d r where dr: "ds = d # r" by (cases ds) auto
  with ds have d: "is_digit d" by simp
  have s1: "dropWhile is_space ds = ds" using d dr by (simp add: digit_not_space)
  have nosign: "d \<noteq> CHR ''+''" "d \<noteq> CHR ''-''" using d by (auto simp: is_digit_def)
  have s2: "(if ds \<noteq> [] \<and> (hd ds = CHR ''+'' \<or> hd ds = CHR ''-'') then tl ds else ds) = ds"
    using nosign dr by simp
  have b: "takeWhile int_body ds = ds"
    using ds by (simp add: list_all_iff digit_body)
  show ?thesis
    unfolding py_int_def s1 Let_def s2 b filter_digits [OF ds]
    using lim by simp
qed

lemma py_int_str_int:
  assumes "str_int n = Inr s"
  shows "py_int s = Inr n"
proof -
  let ?ds = "digits_of (nat \<bar>n\<bar>)"
  from assms have lim: "length ?ds \<le> max_str_digits"
    and s: "s = (if n < 0 then CHR ''-'' # ?ds else ?ds)"
    by (simp_all add: str_int_Inr within_limit_def)
  show ?thesis
  proof (cases "n < 0")
    case True
    have "py_int ([] @ CHR ''-'' # ?ds @ []) = Inr (- int (dec_value ?ds))"
      by (subst py_int_signed) (simp_all add: digits_of_digits digits_of_nonempty lim)
    with True s show ?thesis by (simp add: dec_value_digits_of)
  next
    case False
    have "py_int ([] @ ?ds @ []) = Inr (int (dec_value ?ds))"
      by (subst py_int_unsigned) (simp_all add: digits_of_digits digits_of_nonempty lim)
    with False s show ?thesis by (simp add: dec_value_digits_of)
  qed
qed

section \<open>The decoder on one integer and on one string\<close>

lemma slice_at:
  assumes "i = int (length pre)" "j = int (length pre + length b)"
  shows "slice (pre @ b @ post) i j = b"
  unfolding assms by (rule slice_mid)

lemma bytes_index_at:
  assumes "c \<notin> set mid" "i = int (length pre)"
  shows "bytes_index (pre @ mid @ c # post) [c] i = Inr (int (length pre + length mid))"
  unfolding assms(2) by (rule bytes_index_found [OF assms(1)])

lemma decode_int_at:
  assumes e: "CHR ''e'' \<notin> set p" and v: "py_int p = Inr v"
  shows "decode_int (pre @ INTEGER @ p @ END @ post) (int (length pre))
           = Inr (v, int (length pre + length p + 2))"
proof -
  let ?data = "pre @ INTEGER @ p @ END @ post"
  have d: "?data = (pre @ ''i'') @ p @ CHR ''e'' # post" by (simp add: INTEGER_def END_def)
  have "bytes_index ((pre @ ''i'') @ p @ CHR ''e'' # post) [CHR ''e''] (int (length pre) + 1)
          = Inr (int (length (pre @ ''i'') + length p))"
    by (rule bytes_index_at [OF e]) simp
  then have i: "bytes_index ?data END (int (length pre) + 1) = Inr (int (length (pre @ ''i'') + length p))"
    by (simp add: INTEGER_def END_def)
  have s: "slice ?data (int (length pre) + 1) (int (length (pre @ ''i'') + length p)) = p"
    unfolding d by (rule slice_at) simp_all
  show ?thesis
    unfolding decode_int_def Let_def i sum.case s v by simp
qed

lemma digits_no_colon: "list_all is_digit ds \<Longrightarrow> CHR '':'' \<notin> set ds"
  by (auto simp: list_all_iff is_digit_def)

lemma digits_no_e: "list_all is_digit ds \<Longrightarrow> CHR ''e'' \<notin> set ds"
  by (auto simp: list_all_iff is_digit_def)

lemma decode_str_at:
  assumes eb: "encode_bytes k = Inr eb"
  shows "decode_str (pre @ eb @ post) (int (length pre))
           = Inr (text_of k, int (length pre + length eb))"
proof -
  let ?ds = "digits_of (length k)"
  let ?data = "pre @ eb @ post"
  from eb have lim: "within_limit (length k)" and e: "eb = ?ds @ CHR '':'' # k"
    by (simp_all add: encode_bytes_Inr)
  have d: "?data = pre @ ?ds @ CHR '':'' # (k @ post)" by (simp add: e)
  have d2: "?data = (pre @ ?ds @ '':'') @ k @ post" by (simp add: e)
  have "bytes_index (pre @ ?ds @ CHR '':'' # (k @ post)) [CHR '':''] (int (length pre))
          = Inr (int (length pre + length ?ds))"
    by (rule bytes_index_at [OF digits_no_colon [OF digits_of_digits]]) simp
  then have i: "bytes_index ?data COLON (int (length pre)) = Inr (int (length pre + length ?ds))"
    by (simp add: e COLON_def)
  have s: "slice ?data (int (length pre)) (int (length pre + length ?ds)) = ?ds"
    unfolding d by (rule slice_at) simp_all
  have "str_int (int (length k)) = Inr ?ds" using lim by (simp add: str_int_Inr)
  then have v: "py_int ?ds = Inr (int (length k))" by (rule py_int_str_int)
  have s2: "slice ?data (int (length pre + length ?ds) + 1) (int (length pre + length ?ds) + 1 + int (length k)) = k"
    unfolding d2 by (rule slice_at) simp_all
  show ?thesis
    unfolding decode_str_def Let_def i sum.case s v s2 by (simp add: e)
qed

lemma decode_int_head:
  "slice (INTEGER @ p @ END) 0 (0 + 1) = INTEGER"
  using slice_one [of "[]" "CHR ''i''" "p @ END"] by (simp add: INTEGER_def)

lemma decode_int_payload:
  assumes w1: "list_all is_space ws1" and w2: "list_all is_space ws2"
    and sg: "sg = [] \<or> sg = ''+'' \<or> sg = ''-''"
    and lim: "z + length (digits_of m) \<le> max_str_digits"
  shows "decode (Suc n)
           (Bytes (INTEGER @ ws1 @ sg @ replicate z (CHR ''0'') @ digits_of m @ ws2 @ END))
         = Some (Inr (PInt (if sg = ''-'' then - int m else int m)))"
proof -
  let ?ds = "replicate z (CHR ''0'') @ digits_of m"
  let ?p = "ws1 @ sg @ ?ds @ ws2"
  let ?data = "INTEGER @ ?p @ END"
  have ds: "list_all is_digit ?ds" "?ds \<noteq> []"
    using digits_of_digits [of m] digits_of_nonempty [of m]
    by (auto simp: list_all_iff is_digit_def)
  have len: "length ?ds \<le> max_str_digits" using lim by simp
  have val: "dec_value ?ds = m"
    by (simp add: dec_value_zeros digits_of_digits dec_value_digits_of)
  have v: "py_int ?p = Inr (if sg = ''-'' then - int m else int m)"
  proof (cases "sg = []")
    case True
    with py_int_unsigned [OF ds w1 w2 len] val show ?thesis by simp
  next
    case False
    then obtain c where c: "sg = [c]" "c = CHR ''+'' \<or> c = CHR ''-''" using sg by auto
    with py_int_signed [OF ds w1 w2 c(2) len] val show ?thesis by auto
  qed
  have e: "CHR ''e'' \<notin> set ?p"
    using w1 w2 sg digits_no_e [OF ds(1)] by (auto simp: list_all_iff is_space_def)
  have di: "decode_int ([] @ INTEGER @ ?p @ END @ []) (int (length ([]::bytes)))
              = Inr (if sg = ''-'' then - int m else int m, int (length ([]::bytes) + length ?p + 2))"
    by (rule decode_int_at [OF e v])
  have hd: "slice ?data 0 (0 + 1) = INTEGER"
    using decode_int_head [of ?p] by simp
  have len: "length ?data = length ?p + 2" by (simp add: INTEGER_def END_def)
  from di have di': "decode_int ?data 0 = Inr (if sg = ''-'' then - int m else int m, int (length ?p + 2))"
    by simp
  have "decode_at (Suc n) ?data 0 = Some (Inr (PInt (if sg = ''-'' then - int m else int m), int (length ?p + 2)))"
    unfolding decode_at.simps Let_def hd di' by simp
  then show ?thesis
    unfolding decode_def using len by simp
qed

lemma decode_int_raises:
  assumes e: "CHR ''e'' \<notin> set p" and v: "py_int p = Inl err"
  shows "decode (Suc n) (Bytes (INTEGER @ p @ END)) = Some (Inl err)"
proof -
  let ?data = "INTEGER @ p @ END"
  have d: "?data = ''i'' @ p @ CHR ''e'' # []" by (simp add: INTEGER_def END_def)
  have "bytes_index (''i'' @ p @ CHR ''e'' # []) [CHR ''e''] (0 + 1) = Inr (int (length ''i'' + length p))"
    by (rule bytes_index_at [OF e]) simp
  then have i: "bytes_index ?data END (0 + 1) = Inr (int (length ''i'' + length p))"
    by (simp add: INTEGER_def END_def)
  have s: "slice ?data (0 + 1) (int (length ''i'' + length p)) = p"
    unfolding d by (rule slice_at) simp_all
  have di: "decode_int ?data 0 = Inl err"
    unfolding decode_int_def Let_def i sum.case s v by simp
  have "decode_at (Suc n) ?data 0 = Some (Inl err)"
    unfolding decode_at.simps Let_def decode_int_head di by simp
  then show ?thesis by (simp add: decode_def)
qed

section \<open>The decoder on the bytes of an encoded value\<close>

subsection \<open>One step of \<^verbatim>\<open>_decode\<close> and of the loops\<close>

lemma list_loop_step:
  "slice D i (i + 1) \<noteq> END \<Longrightarrow> decode_at m D i = Some (Inr (v, j)) \<Longrightarrow>
   decode_list_loop (Suc m) D i acc = decode_list_loop m D j (acc @ [v])"
  by simp

lemma list_loop_stop:
  "slice D i (i + 1) = END \<Longrightarrow> decode_list_loop (Suc m) D i acc = Some (Inr (PList acc, i + 1))"
  by simp

lemma dict_loop_step:
  "slice D i (i + 1) \<noteq> END \<Longrightarrow> decode_str D i = Inr (k, j) \<Longrightarrow>
   decode_at m D j = Some (Inr (v, l)) \<Longrightarrow>
   decode_dict_loop (Suc m) D i acc = decode_dict_loop m D l (AList.update k v acc)"
  by simp

lemma dict_loop_stop:
  "slice D i (i + 1) = END \<Longrightarrow> decode_dict_loop (Suc m) D i acc = Some (Inr (PDict acc, i + 1))"
  by simp

lemma decode_at_int:
  "slice D i (i + 1) = INTEGER \<Longrightarrow> decode_int D i = Inr (n, j) \<Longrightarrow>
   decode_at (Suc m) D i = Some (Inr (PInt n, j))"
  by simp

lemma decode_at_str:
  "slice D i (i + 1) = [c] \<Longrightarrow> is_digit c \<Longrightarrow> decode_str D i = Inr (s, j) \<Longrightarrow>
   decode_at (Suc m) D i = Some (Inr (key_val s, j))"
  by (auto simp: Let_def INTEGER_def isdigit_def is_digit_def)

lemma decode_at_dict:
  "slice D i (i + 1) = DICT \<Longrightarrow> decode_at (Suc m) D i = decode_dict_loop m D (i + 1) []"
  by (simp add: INTEGER_def DICT_def isdigit_def is_digit_def)

lemma decode_at_list:
  "slice D i (i + 1) = LIST \<Longrightarrow> decode_at (Suc m) D i = decode_list_loop m D (i + 1) []"
  by (simp add: INTEGER_def DICT_def LIST_def isdigit_def is_digit_def)

lemma decode_at_other:
  "slice D i (i + 1) = [] \<or> slice D i (i + 1) = END \<Longrightarrow>
   decode_at (Suc m) D i = Some (Inl BencodeDecodeError)"
  by (auto simp: INTEGER_def DICT_def LIST_def END_def isdigit_def is_digit_def)

lemma decodes_to_head:
  assumes "decodes_to b v"
  shows "\<exists>c r. b = c # r \<and> c \<noteq> CHR ''e''"
proof -
  obtain n where "\<forall>m\<ge>n. \<forall>pre post.
      decode_at m (pre @ b @ post) (int (length pre)) = Some (Inr (v, int (length pre + length b)))"
    using assms by (auto simp: decodes_to_def)
  then have "decode_at (Suc n) ([] @ b @ []) (int (length ([]::bytes)))
      = Some (Inr (v, int (length ([]::bytes) + length b)))"
    by (meson le_SucI order_refl)
  then have d: "decode_at (Suc n) b 0 = Some (Inr (v, int (length b)))" by simp
  show ?thesis
  proof (cases b)
    case Nil
    have "slice ([]::bytes) 0 (0 + 1) = []" by (simp add: slice_def)
    then have "decode_at (Suc n) [] 0 = Some (Inl BencodeDecodeError)"
      by (intro decode_at_other) simp
    with d Nil show ?thesis by simp
  next
    case (Cons c r)
    have "c \<noteq> CHR ''e''"
    proof
      assume "c = CHR ''e''"
      then have "slice b 0 (0 + 1) = END"
        using slice_one [of "[]" c r] Cons by (simp add: END_def)
      then have "decode_at (Suc n) b 0 = Some (Inl BencodeDecodeError)"
        by (intro decode_at_other) simp
      with d show False by simp
    qed
    with Cons show ?thesis by simp
  qed
qed

lemma slice_head_not_END:
  assumes "decodes_to b v"
  shows "slice (pre @ b @ post) (int (length pre)) (int (length pre) + 1) \<noteq> END"
proof -
  obtain c r where b: "b = c # r" "c \<noteq> CHR ''e''" using decodes_to_head [OF assms] by blast
  have "slice (pre @ c # (r @ post)) (int (length pre)) (int (length pre) + 1) = [c]"
    by (rule slice_one)
  with b show ?thesis by (simp add: END_def)
qed

lemma decode_list_loop_at:
  assumes "\<forall>x\<in>set xs. decodes_to (B x) (V x)"
  shows "\<exists>n. \<forall>m\<ge>n. \<forall>pre post acc.
           decode_list_loop m (pre @ concat (map B xs) @ END @ post) (int (length pre)) acc
             = Some (Inr (PList (acc @ map V xs), int (length pre + length (concat (map B xs)) + 1)))"
  using assms
proof (induction xs)
  case Nil
  have "decode_list_loop m (pre @ concat (map B []) @ END @ post) (int (length pre)) acc
          = Some (Inr (PList (acc @ map V []), int (length pre + length (concat (map B [])) + 1)))"
    if le: "Suc 0 \<le> m" for m pre post acc
  proof -
    obtain m' where m: "m = Suc m'" using le by (cases m) auto
    have "slice (pre @ CHR ''e'' # post) (int (length pre)) (int (length pre) + 1) = END"
      unfolding END_def by (rule slice_one)
    then have "decode_list_loop (Suc m') (pre @ CHR ''e'' # post) (int (length pre)) acc
        = Some (Inr (PList acc, int (length pre) + 1))"
      by (rule list_loop_stop)
    then show ?thesis by (simp add: m END_def)
  qed
  then show ?case by blast
next
  case (Cons x xs)
  from Cons.prems have dx: "decodes_to (B x) (V x)" by simp
  then obtain n1 where n1: "\<And>m pre post. n1 \<le> m \<Longrightarrow>
      decode_at m (pre @ B x @ post) (int (length pre))
        = Some (Inr (V x, int (length pre + length (B x))))"
    by (auto simp: decodes_to_def)
  have "\<exists>n. \<forall>m\<ge>n. \<forall>pre post acc.
      decode_list_loop m (pre @ concat (map B xs) @ END @ post) (int (length pre)) acc
        = Some (Inr (PList (acc @ map V xs), int (length pre + length (concat (map B xs)) + 1)))"
    by (rule Cons.IH) (use Cons.prems in simp)
  then obtain n2 where n2: "\<And>m pre post acc. n2 \<le> m \<Longrightarrow>
      decode_list_loop m (pre @ concat (map B xs) @ END @ post) (int (length pre)) acc
        = Some (Inr (PList (acc @ map V xs), int (length pre + length (concat (map B xs)) + 1)))"
    by blast
  have "decode_list_loop m (pre @ concat (map B (x # xs)) @ END @ post) (int (length pre)) acc
      = Some (Inr (PList (acc @ map V (x # xs)),
                   int (length pre + length (concat (map B (x # xs))) + 1)))"
    if le: "Suc (max n1 n2) \<le> m" for m pre post acc
  proof -
    obtain m' where m: "m = Suc m'" "n1 \<le> m'" "n2 \<le> m'" using le by (cases m) auto
    let ?rest = "concat (map B xs) @ END @ post"
    let ?D = "pre @ B x @ ?rest"
    have s: "slice ?D (int (length pre)) (int (length pre) + 1) \<noteq> END"
      by (rule slice_head_not_END [OF dx])
    have a: "decode_at m' ?D (int (length pre)) = Some (Inr (V x, int (length pre + length (B x))))"
      by (rule n1 [OF m(2)])
    have "decode_list_loop m' ((pre @ B x) @ ?rest) (int (length (pre @ B x))) (acc @ [V x])
        = Some (Inr (PList ((acc @ [V x]) @ map V xs),
                     int (length (pre @ B x) + length (concat (map B xs)) + 1)))"
      by (rule n2 [OF m(3)])
    then have b: "decode_list_loop m' ?D (int (length pre + length (B x))) (acc @ [V x])
        = Some (Inr (PList (acc @ map V (x # xs)),
                     int (length pre + length (concat (map B (x # xs))) + 1)))"
      by (simp add: add.assoc)
    have "decode_list_loop (Suc m') ?D (int (length pre)) acc
        = decode_list_loop m' ?D (int (length pre + length (B x))) (acc @ [V x])"
      by (rule list_loop_step [OF s a])
    with b show ?thesis by (simp add: m(1))
  qed
  then show ?case by blast
qed

lemma digits_of_head: "\<exists>c r. digits_of n = c # r \<and> is_digit c"
  using digits_of_digits [of n] digits_of_nonempty [of n] by (cases "digits_of n") auto

lemma slice_head_key:
  assumes "encode_bytes k = Inr eb"
  shows "\<exists>c. slice (pre @ eb @ post) (int (length pre)) (int (length pre) + 1) = [c] \<and> is_digit c"
proof -
  obtain c r where c: "digits_of (length k) = c # r" "is_digit c" using digits_of_head by blast
  have "slice (pre @ c # (r @ CHR '':'' # k @ post)) (int (length pre)) (int (length pre) + 1) = [c]"
    by (rule slice_one)
  with c assms show ?thesis by (simp add: encode_bytes_Inr)
qed

lemma decode_dict_loop_at:
  assumes "\<forall>x\<in>set xs. encode_bytes (K x) = Inr (KB x) \<and> decodes_to (B x) (V x)"
  shows "\<exists>n. \<forall>m\<ge>n. \<forall>pre post acc.
           decode_dict_loop m
               (pre @ concat (map (\<lambda>x. KB x @ B x) xs) @ END @ post)
               (int (length pre)) acc
             = Some (Inr (PDict (dict_assign acc (map (\<lambda>x. (text_of (K x), V x)) xs)),
                 int (length pre + length (concat (map (\<lambda>x. KB x @ B x) xs)) + 1)))"
  using assms
proof (induction xs)
  case Nil
  have "decode_dict_loop m (pre @ concat (map (\<lambda>x. KB x @ B x) []) @ END @ post)
            (int (length pre)) acc
          = Some (Inr (PDict (dict_assign acc (map (\<lambda>x. (text_of (K x), V x)) [])),
               int (length pre + length (concat (map (\<lambda>x. KB x @ B x) [])) + 1)))"
    if le: "Suc 0 \<le> m" for m pre post acc
  proof -
    obtain m' where m: "m = Suc m'" using le by (cases m) auto
    have "slice (pre @ CHR ''e'' # post) (int (length pre)) (int (length pre) + 1) = END"
      unfolding END_def by (rule slice_one)
    then have "decode_dict_loop (Suc m') (pre @ CHR ''e'' # post) (int (length pre)) acc
        = Some (Inr (PDict acc, int (length pre) + 1))"
      by (rule dict_loop_stop)
    then show ?thesis by (simp add: m END_def dict_assign_def)
  qed
  then show ?case by blast
next
  case (Cons x xs)
  let ?E = "\<lambda>x. KB x @ B x"
  from Cons.prems have kx: "encode_bytes (K x) = Inr (KB x)" and dx: "decodes_to (B x) (V x)"
    by simp_all
  from dx obtain n1 where n1: "\<And>m pre post. n1 \<le> m \<Longrightarrow>
      decode_at m (pre @ B x @ post) (int (length pre))
        = Some (Inr (V x, int (length pre + length (B x))))"
    by (auto simp: decodes_to_def)
  have "\<exists>n. \<forall>m\<ge>n. \<forall>pre post acc.
      decode_dict_loop m (pre @ concat (map ?E xs) @ END @ post) (int (length pre)) acc
        = Some (Inr (PDict (dict_assign acc (map (\<lambda>x. (text_of (K x), V x)) xs)),
                 int (length pre + length (concat (map ?E xs)) + 1)))"
    by (rule Cons.IH) (use Cons.prems in simp)
  then obtain n2 where n2: "\<And>m pre post acc. n2 \<le> m \<Longrightarrow>
      decode_dict_loop m (pre @ concat (map ?E xs) @ END @ post) (int (length pre)) acc
        = Some (Inr (PDict (dict_assign acc (map (\<lambda>x. (text_of (K x), V x)) xs)),
                 int (length pre + length (concat (map ?E xs)) + 1)))"
    by blast
  have "decode_dict_loop m (pre @ concat (map ?E (x # xs)) @ END @ post) (int (length pre)) acc
      = Some (Inr (PDict (dict_assign acc (map (\<lambda>x. (text_of (K x), V x)) (x # xs))),
                 int (length pre + length (concat (map ?E (x # xs))) + 1)))"
    if le: "Suc (max n1 n2) \<le> m" for m pre post acc
  proof -
    obtain m' where m: "m = Suc m'" "n1 \<le> m'" "n2 \<le> m'" using le by (cases m) auto
    let ?rest = "concat (map ?E xs) @ END @ post"
    let ?D = "pre @ KB x @ B x @ ?rest"
    let ?j = "int (length pre + length (KB x))"
    let ?l = "int (length pre + length (KB x) + length (B x))"
    obtain c where "slice ?D (int (length pre)) (int (length pre) + 1) = [c]" "is_digit c"
      using slice_head_key [OF kx, of pre "B x @ ?rest"] by blast
    then have s: "slice ?D (int (length pre)) (int (length pre) + 1) \<noteq> END"
      by (auto simp: END_def is_digit_def)
    have k: "decode_str ?D (int (length pre)) = Inr (text_of (K x), ?j)"
      by (rule decode_str_at [OF kx])
    have "decode_at m' ((pre @ KB x) @ B x @ ?rest)
             (int (length (pre @ KB x)))
          = Some (Inr (V x, int (length (pre @ KB x) + length (B x))))"
      by (rule n1 [OF m(2)])
    then have a: "decode_at m' ?D ?j = Some (Inr (V x, ?l))" by simp
    have "decode_dict_loop m' ((pre @ KB x @ B x) @ ?rest)
             (int (length (pre @ KB x @ B x)))
             (AList.update (text_of (K x)) (V x) acc)
        = Some (Inr (PDict (dict_assign (AList.update (text_of (K x)) (V x) acc)
                              (map (\<lambda>x. (text_of (K x), V x)) xs)),
                 int (length (pre @ KB x @ B x) + length (concat (map ?E xs)) + 1)))"
      by (rule n2 [OF m(3)])
    then have b: "decode_dict_loop m' ?D ?l (AList.update (text_of (K x)) (V x) acc)
        = Some (Inr (PDict (dict_assign acc (map (\<lambda>x. (text_of (K x), V x)) (x # xs))),
                 int (length pre + length (concat (map ?E (x # xs))) + 1)))"
      by (simp add: add.assoc dict_assign_def)
    have "decode_dict_loop (Suc m') ?D (int (length pre)) acc
        = decode_dict_loop m' ?D ?l (AList.update (text_of (K x)) (V x) acc)"
      by (rule dict_loop_step [OF s k a])
    with b show ?thesis by (simp add: m(1))
  qed
  then show ?case by blast
qed

subsection \<open>What \<^verbatim>\<open>encode\<close> emits, \<^verbatim>\<open>_decode\<close> reads back\<close>

lemma join_results_map:
  "join_results (map f xs) = Inr body \<Longrightarrow>
   (\<forall>x\<in>set xs. f x = Inr (projr (f x))) \<and> body = concat (map (\<lambda>x. projr (f x)) xs)"
  by (induction xs arbitrary: body) (auto split: sum.splits)

lemma join_results_pairs:
  "join_results (concat (map (\<lambda>x. [f x, g x]) xs)) = Inr body \<Longrightarrow>
   (\<forall>x\<in>set xs. f x = Inr (projr (f x)) \<and> g x = Inr (projr (g x))) \<and>
   body = concat (map (\<lambda>x. projr (f x) @ projr (g x)) xs)"
  by (induction xs arbitrary: body) (auto split: sum.splits)

lemma str_int_no_e: "str_int n = Inr s \<Longrightarrow> CHR ''e'' \<notin> set s"
  using digits_no_e [OF digits_of_digits] by (auto simp: str_int_Inr)

lemma decodes_int:
  assumes "encode_int n = Inr b"
  shows "decodes_to b (PInt n)"
proof -
  from assms obtain s where s: "str_int n = Inr s" and b: "b = INTEGER @ s @ END"
    by (auto simp: encode_int_Inr)
  have "decode_at m (pre @ b @ post) (int (length pre))
          = Some (Inr (PInt n, int (length pre + length b)))"
    if le: "Suc 0 \<le> m" for m pre post
  proof -
    obtain m' where m: "m = Suc m'" using le by (cases m) auto
    let ?D = "pre @ INTEGER @ s @ END @ post"
    have "slice (pre @ CHR ''i'' # (s @ END @ post)) (int (length pre)) (int (length pre) + 1)
            = [CHR ''i'']"
      by (rule slice_one)
    then have sl: "slice ?D (int (length pre)) (int (length pre) + 1) = INTEGER"
      by (simp add: INTEGER_def)
    have d: "decode_int ?D (int (length pre)) = Inr (n, int (length pre + length s + 2))"
      by (rule decode_int_at [OF str_int_no_e [OF s] py_int_str_int [OF s]])
    have "decode_at (Suc m') ?D (int (length pre))
            = Some (Inr (PInt n, int (length pre + length s + 2)))"
      by (rule decode_at_int [OF sl d])
    then show ?thesis by (simp add: m b INTEGER_def END_def)
  qed
  then show ?thesis unfolding decodes_to_def by blast
qed

lemma decodes_bytes:
  assumes eb: "encode_bytes k = Inr eb"
  shows "decodes_to eb (key_val (text_of k))"
proof -
  have "decode_at m (pre @ eb @ post) (int (length pre))
          = Some (Inr (key_val (text_of k), int (length pre + length eb)))"
    if le: "Suc 0 \<le> m" for m pre post
  proof -
    obtain m' where m: "m = Suc m'" using le by (cases m) auto
    obtain c where c: "slice (pre @ eb @ post) (int (length pre)) (int (length pre) + 1) = [c]"
      "is_digit c"
      using slice_head_key [OF eb] by blast
    have "decode_at (Suc m') (pre @ eb @ post) (int (length pre))
            = Some (Inr (key_val (text_of k), int (length pre + length eb)))"
      by (rule decode_at_str [OF c decode_str_at [OF eb]])
    then show ?thesis by (simp add: m)
  qed
  then show ?thesis unfolding decodes_to_def by blast
qed

lemma encode_key_val: "encode (key_val k) = Inr b \<Longrightarrow> encode_bytes (key_bytes k) = Inr b"
  by (cases k) (auto simp: key_val_def key_bytes_def encode_str_def split: option.splits)

lemma the_sorted_Inr: "sorted_items kvs = Inr s \<Longrightarrow> the_sorted kvs = s"
  by (simp add: the_sorted_def)

lemma decodes_list:
  assumes el: "\<forall>x\<in>set xs. decodes_to (B x) (V x)"
  shows "decodes_to (LIST @ concat (map B xs) @ END) (PList (map V xs))"
proof -
  obtain n where n: "\<And>m pre post acc. n \<le> m \<Longrightarrow>
      decode_list_loop m (pre @ concat (map B xs) @ END @ post) (int (length pre)) acc
        = Some (Inr (PList (acc @ map V xs), int (length pre + length (concat (map B xs)) + 1)))"
    using decode_list_loop_at [OF el] by blast
  have "decode_at m (pre @ (LIST @ concat (map B xs) @ END) @ post) (int (length pre))
          = Some (Inr (PList (map V xs), int (length pre + length (LIST @ concat (map B xs) @ END))))"
    if le: "Suc n \<le> m" for m pre post
  proof -
    obtain m' where m: "m = Suc m'" "n \<le> m'" using le by (cases m) auto
    let ?D = "pre @ LIST @ concat (map B xs) @ END @ post"
    have "slice (pre @ CHR ''l'' # (concat (map B xs) @ END @ post)) (int (length pre)) (int (length pre) + 1)
            = [CHR ''l'']"
      by (rule slice_one)
    then have s: "slice ?D (int (length pre)) (int (length pre) + 1) = LIST"
      by (simp add: LIST_def)
    have "decode_list_loop m' ((pre @ LIST) @ concat (map B xs) @ END @ post) (int (length (pre @ LIST))) []
        = Some (Inr (PList ([] @ map V xs), int (length (pre @ LIST) + length (concat (map B xs)) + 1)))"
      by (rule n [OF m(2)])
    then have l: "decode_list_loop m' ?D (int (length pre) + 1) []
        = Some (Inr (PList (map V xs), int (length pre + length (LIST @ concat (map B xs) @ END))))"
      by (simp add: LIST_def END_def add.commute)
    have "decode_at (Suc m') ?D (int (length pre)) = decode_list_loop m' ?D (int (length pre) + 1) []"
      by (rule decode_at_list [OF s])
    with l show ?thesis by (simp add: m(1))
  qed
  then show ?thesis unfolding decodes_to_def by blast
qed

lemma decodes_dict:
  assumes el: "\<forall>x\<in>set xs. encode_bytes (K x) = Inr (KB x) \<and> decodes_to (B x) (V x)"
  shows "decodes_to (DICT @ concat (map (\<lambda>x. KB x @ B x) xs) @ END)
           (PDict (dict_assign [] (map (\<lambda>x. (text_of (K x), V x)) xs)))"
proof -
  let ?body = "concat (map (\<lambda>x. KB x @ B x) xs)"
  let ?r = "PDict (dict_assign [] (map (\<lambda>x. (text_of (K x), V x)) xs))"
  obtain n where n: "\<And>m pre post acc. n \<le> m \<Longrightarrow>
      decode_dict_loop m (pre @ ?body @ END @ post) (int (length pre)) acc
        = Some (Inr (PDict (dict_assign acc (map (\<lambda>x. (text_of (K x), V x)) xs)),
                 int (length pre + length ?body + 1)))"
    using decode_dict_loop_at [OF el] by blast
  have "decode_at m (pre @ (DICT @ ?body @ END) @ post) (int (length pre))
          = Some (Inr (?r, int (length pre + length (DICT @ ?body @ END))))"
    if le: "Suc n \<le> m" for m pre post
  proof -
    obtain m' where m: "m = Suc m'" "n \<le> m'" using le by (cases m) auto
    let ?D = "pre @ DICT @ ?body @ END @ post"
    have "slice (pre @ CHR ''d'' # (?body @ END @ post)) (int (length pre)) (int (length pre) + 1)
            = [CHR ''d'']"
      by (rule slice_one)
    then have s: "slice ?D (int (length pre)) (int (length pre) + 1) = DICT"
      by (simp add: DICT_def)
    have "decode_dict_loop m' ((pre @ DICT) @ ?body @ END @ post) (int (length (pre @ DICT))) []
        = Some (Inr (?r, int (length (pre @ DICT) + length ?body + 1)))"
      by (rule n [OF m(2)])
    then have l: "decode_dict_loop m' ?D (int (length pre) + 1) []
        = Some (Inr (?r, int (length pre + length (DICT @ ?body @ END))))"
      by (simp add: DICT_def END_def add.commute)
    have "decode_at (Suc m') ?D (int (length pre)) = decode_dict_loop m' ?D (int (length pre) + 1) []"
      by (rule decode_at_dict [OF s])
    with l show ?thesis by (simp add: m(1))
  qed
  then show ?thesis unfolding decodes_to_def by blast
qed

lemma encode_decodes_aux:
  "(\<forall>b. encode v = Inr b \<longrightarrow> decodes_to b (readback v))"
  "(\<forall>b. encode_dict kvs = Inr b \<longrightarrow> decodes_to b (readback (PDict kvs)))"
  "(\<forall>b. encode_list xs = Inr b \<longrightarrow> decodes_to b (readback (PList xs)))"
proof (induction v and kvs and xs rule: encode_encode_dict_encode_list.induct)
  case (1 b)
  show ?case using decodes_int [of "if b then 1 else 0"] by (simp add: encode_bool_def)
next
  case (2 b)
  show ?case using decodes_bytes by simp
next
  case (3 kvs)
  then show ?case by simp
next
  case (4 n)
  show ?case using decodes_int by simp
next
  case (5 xs)
  then show ?case by simp
next
  case (6 s)
  show ?case
    using decodes_bytes
    by (auto simp: encode_str_def key_bytes_def split: option.splits)
next
  case 7
  show ?case by simp
next
  case (8 "value")
  show ?case
  proof (intro allI impI)
    fix b assume b: "encode_dict value = Inr b"
    then obtain s where s: "sorted_items value = Inr s"
      by (auto split: sum.splits)
    with b obtain body where body:
      "join_results (concat (map (\<lambda>kv. [encode (key_val (fst kv)), encode (snd kv)]) s)) = Inr body"
      "b = DICT @ body @ END"
      by (auto split: sum.splits)
    let ?K = "\<lambda>kv. key_bytes (fst kv)"
    let ?KB = "\<lambda>kv. projr (encode (key_val (fst kv)))"
    let ?B = "\<lambda>kv. projr (encode (snd kv))"
    let ?V = "\<lambda>kv. readback (snd kv)"
    from join_results_pairs [OF body(1)]
    have ok: "\<forall>kv\<in>set s. encode (key_val (fst kv)) = Inr (?KB kv) \<and> encode (snd kv) = Inr (?B kv)"
      and bd: "body = concat (map (\<lambda>kv. ?KB kv @ ?B kv) s)"
      by blast+
    have el: "\<forall>kv\<in>set s. encode_bytes (?K kv) = Inr (?KB kv) \<and> decodes_to (?B kv) (?V kv)"
      using "8.IH"(2) [OF s] ok encode_key_val by blast
    have "decodes_to (DICT @ concat (map (\<lambda>kv. ?KB kv @ ?B kv) s) @ END)
            (PDict (dict_assign [] (map (\<lambda>kv. (text_of (?K kv), ?V kv)) s)))"
      by (rule decodes_dict [OF el])
    then show "decodes_to b (readback (PDict value))"
      by (simp add: body(2) bd the_sorted_Inr [OF s])
  qed
next
  case (9 data)
  show ?case
  proof (intro allI impI)
    fix b assume b: "encode_list data = Inr b"
    then obtain body where body: "join_results (map encode data) = Inr body" "b = LIST @ body @ END"
      by (auto split: sum.splits)
    from join_results_map [OF body(1)]
    have ok: "\<forall>x\<in>set data. encode x = Inr (projr (encode x))"
      and bd: "body = concat (map (\<lambda>x. projr (encode x)) data)"
      by blast+
    have el: "\<forall>x\<in>set data. decodes_to (projr (encode x)) (readback x)"
      using "9.IH" ok by blast
    have "decodes_to (LIST @ concat (map (\<lambda>x. projr (encode x)) data) @ END) (PList (map readback data))"
      by (rule decodes_list [OF el])
    then show "decodes_to b (readback (PList data))"
      by (simp add: body(2) bd)
  qed
qed

lemma encode_decodes: "encode v = Inr b \<Longrightarrow> decodes_to b (readback v)"
  using encode_decodes_aux(1) by blast

lemma decodes_to_decode:
  assumes "decodes_to b v"
  shows "\<exists>n. \<forall>m\<ge>n. decode m (Bytes b) = Some (Inr v)"
proof -
  obtain n where n: "\<And>m pre post. n \<le> m \<Longrightarrow>
      decode_at m (pre @ b @ post) (int (length pre)) = Some (Inr (v, int (length pre + length b)))"
    using assms by (auto simp: decodes_to_def)
  have "decode m (Bytes b) = Some (Inr v)" if "n \<le> m" for m
    using n [OF that, of "[]" "[]"] by (simp add: decode_def)
  then show ?thesis by blast
qed

lemma decodes_to_trailing:
  assumes "decodes_to b v" "extra \<noteq> []"
  shows "\<exists>n. \<forall>m\<ge>n. decode m (Bytes (b @ extra)) = Some (Inl BencodeDecodeError)"
proof -
  obtain n where n: "\<And>m pre post. n \<le> m \<Longrightarrow>
      decode_at m (pre @ b @ post) (int (length pre)) = Some (Inr (v, int (length pre + length b)))"
    using assms by (auto simp: decodes_to_def)
  have "decode m (Bytes (b @ extra)) = Some (Inl BencodeDecodeError)" if "n \<le> m" for m
    using n [OF that, of "[]" extra] assms(2) by (simp add: decode_def)
  then show ?thesis by blast
qed

text \<open>
  C3. A complete well-formed encoded value is what \<^verbatim>\<open>encode\<close> returns for some value.
  When at least one more byte follows it in the buffer, \<^verbatim>\<open>_decode\<close> stops after the
  value, the end position differs from the length of the buffer, and \<^verbatim>\<open>decode\<close>
  raises \<^verbatim>\<open>BencodeDecodeError\<close> (the call does return: with enough fuel the result is
  the error).
\<close>

theorem decode_rejects_trailing_bytes:
  "encode v = Inr b \<Longrightarrow> extra \<noteq> [] \<Longrightarrow>
   \<exists>n. \<forall>m\<ge>n. decode m (Bytes (b @ extra)) = Some (Inl BencodeDecodeError)"
  using decodes_to_trailing [OF encode_decodes] by blast

theorem decode_rejects_trailing_bytes_witness:
  "encode (PList [PInt 5, PBytes ''ab'']) = Inr ''li5e2:abe'' \<and> ''x'' \<noteq> [] \<and>
   (\<exists>n. \<forall>m\<ge>n. decode m (Bytes (''li5e2:abe'' @ ''x'')) = Some (Inl BencodeDecodeError))"
proof -
  have h: "encode (PList [PInt 5, PBytes ''ab'']) = Inr ''li5e2:abe''" by code_simp
  have x: "''x'' \<noteq> []" by simp
  show ?thesis using h x decode_rejects_trailing_bytes [OF h x] by blast
qed

section \<open>UTF-8: what the decoder accepts, the encoder produces\<close>

lemma base_split:
  assumes "r < b"
  shows "(q * b + r) div b = q" "(q * b + r) mod b = (r::nat)"
  using assms by simp_all

lemma split3:
  assumes "y < 64" "z < 64"
  shows "(x * 4096 + y * 64 + z) div 4096 = x"
    "(x * 4096 + y * 64 + z) div 64 mod 64 = y"
    "(x * 4096 + y * 64 + z) mod 64 = (z::nat)"
proof -
  let ?c = "x * 4096 + y * 64 + z"
  have e: "?c = (x * 64 + y) * 64 + z" by simp
  have d: "?c div 64 = x * 64 + y" unfolding e by (rule base_split(1) [OF assms(2)])
  show "?c mod 64 = z" unfolding e by (rule base_split(2) [OF assms(2)])
  show "?c div 64 mod 64 = y" unfolding d by (rule base_split(2) [OF assms(1)])
  have "?c div (64 * 64) = ?c div 64 div 64" by (rule div_mult2_eq)
  also have "\<dots> = x" unfolding d by (rule base_split(1) [OF assms(1)])
  finally show "?c div 4096 = x" by simp
qed

lemma split4:
  assumes "y < 64" "z < 64" "w < 64"
  shows "(x * 262144 + y * 4096 + z * 64 + w) div 262144 = x"
    "(x * 262144 + y * 4096 + z * 64 + w) div 4096 mod 64 = y"
    "(x * 262144 + y * 4096 + z * 64 + w) div 64 mod 64 = z"
    "(x * 262144 + y * 4096 + z * 64 + w) mod 64 = (w::nat)"
proof -
  let ?c = "x * 262144 + y * 4096 + z * 64 + w"
  let ?c3 = "x * 4096 + y * 64 + z"
  have e: "?c = ?c3 * 64 + w" by simp
  have d: "?c div 64 = ?c3" unfolding e by (rule base_split(1) [OF assms(3)])
  show "?c mod 64 = w" unfolding e by (rule base_split(2) [OF assms(3)])
  show "?c div 64 mod 64 = z" unfolding d by (rule split3(3) [OF assms(1,2)])
  have "?c div (64 * 64) = ?c div 64 div 64" by (rule div_mult2_eq)
  also have "\<dots> = ?c3 div 64" unfolding d ..
  finally have d2: "?c div 4096 = ?c3 div 64" by simp
  show "?c div 4096 mod 64 = y" unfolding d2 by (rule split3(2) [OF assms(1,2)])
  have "?c div (64 * 4096) = ?c div 64 div 4096" by (rule div_mult2_eq)
  also have "\<dots> = x" unfolding d by (rule split3(1) [OF assms(1,2)])
  finally show "?c div 262144 = x" by simp
qed


lemma cont_bits:
  assumes "cont c"
  shows "cbits c < 64" "char_of (0x80 + cbits c) = c"
proof -
  from assms have r: "0x80 \<le> (of_char c :: nat)" "(of_char c :: nat) < 0xC0" by (simp_all add: cont_def)
  then show "cbits c < 64" by (simp add: cbits_def)
  from r have "0x80 + cbits c = (of_char c :: nat)" by (simp add: cbits_def)
  then show "char_of (0x80 + cbits c) = c" by (simp only: char_of_char)
qed

lemma lead_byte:
  assumes "n0 = (of_char b0 :: nat)" "base \<le> n0"
  shows "char_of (base + (n0 - base)) = b0"
proof -
  from assms have "base + (n0 - base) = (of_char b0 :: nat)" by simp
  then show ?thesis by (simp only: char_of_char)
qed

lemma enc1: "n0 = (of_char b0 :: nat) \<Longrightarrow> n0 < 0x80 \<Longrightarrow> utf8_char n0 = Some [b0]"
  by (simp add: utf8_char_def)

lemma enc2:
  assumes n0: "n0 = (of_char b0 :: nat)" "0xC0 \<le> n0" "n0 < 0xE0" and c1: "cont b1"
    and lo: "0x80 \<le> (n0 - 0xC0) * 64 + cbits b1"
  shows "utf8_char ((n0 - 0xC0) * 64 + cbits b1) = Some [b0, b1]"
proof -
  define cp where "cp = (n0 - 0xC0) * 64 + cbits b1"
  note y = cont_bits [OF c1]
  have d: "cp div 64 = n0 - 0xC0" "cp mod 64 = cbits b1"
    unfolding cp_def by (rule base_split [OF y(1)])+
  have r: "0x80 \<le> cp" "cp < 0x800" using lo n0 y(1) by (simp_all add: cp_def)
  have "utf8_char cp = Some [char_of (0xC0 + (n0 - 0xC0)), char_of (0x80 + cbits b1)]"
    using r d by (simp add: utf8_char_def)
  then show ?thesis
    unfolding cp_def [symmetric] by (simp only: y(2) lead_byte [OF n0(1,2)])
qed

lemma enc3:
  assumes n0: "n0 = (of_char b0 :: nat)" "0xE0 \<le> n0" "n0 < 0xF0" and c: "cont b1" "cont b2"
    and lo: "0x800 \<le> (n0 - 0xE0) * 4096 + cbits b1 * 64 + cbits b2"
    and ns: "\<not> (0xD800 \<le> (n0 - 0xE0) * 4096 + cbits b1 * 64 + cbits b2
                \<and> (n0 - 0xE0) * 4096 + cbits b1 * 64 + cbits b2 \<le> 0xDFFF)"
  shows "utf8_char ((n0 - 0xE0) * 4096 + cbits b1 * 64 + cbits b2) = Some [b0, b1, b2]"
proof -
  define cp where "cp = (n0 - 0xE0) * 4096 + cbits b1 * 64 + cbits b2"
  note y = cont_bits [OF c(1)] and z = cont_bits [OF c(2)]
  have d: "cp div 4096 = n0 - 0xE0" "cp div 64 mod 64 = cbits b1" "cp mod 64 = cbits b2"
    unfolding cp_def by (rule split3 [OF y(1) z(1)])+
  have r: "0x800 \<le> cp" "cp < 0x10000" "\<not> (0xD800 \<le> cp \<and> cp \<le> 0xDFFF)"
    using lo ns n0 y(1) z(1) by (simp_all add: cp_def)
  have "utf8_char cp = Some [char_of (0xE0 + (n0 - 0xE0)), char_of (0x80 + cbits b1),
                             char_of (0x80 + cbits b2)]"
    using r d by (simp add: utf8_char_def)
  then show ?thesis
    unfolding cp_def [symmetric] by (simp only: y(2) z(2) lead_byte [OF n0(1,2)])
qed

lemma enc4:
  assumes n0: "n0 = (of_char b0 :: nat)" "0xF0 \<le> n0" "n0 < 0xF8"
    and c: "cont b1" "cont b2" "cont b3"
    and lo: "0x10000 \<le> (n0 - 0xF0) * 262144 + cbits b1 * 4096 + cbits b2 * 64 + cbits b3"
    and hi: "(n0 - 0xF0) * 262144 + cbits b1 * 4096 + cbits b2 * 64 + cbits b3 < 0x110000"
  shows "utf8_char ((n0 - 0xF0) * 262144 + cbits b1 * 4096 + cbits b2 * 64 + cbits b3)
           = Some [b0, b1, b2, b3]"
proof -
  define cp where "cp = (n0 - 0xF0) * 262144 + cbits b1 * 4096 + cbits b2 * 64 + cbits b3"
  note y = cont_bits [OF c(1)] and z = cont_bits [OF c(2)] and w = cont_bits [OF c(3)]
  have d: "cp div 262144 = n0 - 0xF0" "cp div 4096 mod 64 = cbits b1"
    "cp div 64 mod 64 = cbits b2" "cp mod 64 = cbits b3"
    unfolding cp_def by (rule split4 [OF y(1) z(1) w(1)])+
  have r: "0x10000 \<le> cp" "cp < 0x110000" using lo hi by (simp_all add: cp_def)
  have "utf8_char cp = Some [char_of (0xF0 + (n0 - 0xF0)), char_of (0x80 + cbits b1),
                             char_of (0x80 + cbits b2), char_of (0x80 + cbits b3)]"
    using r d by (simp add: utf8_char_def)
  then show ?thesis
    unfolding cp_def [symmetric] by (simp only: y(2) z(2) w(2) lead_byte [OF n0(1,2)])
qed

lemma utf8_decode_step:
  assumes d: "utf8_decode (b0 # bs) = Some s"
  shows "\<exists>cp s' u r. s = cp # s' \<and> b0 # bs = u @ r \<and> utf8_char cp = Some u
           \<and> utf8_decode r = Some s' \<and> length r < length (b0 # bs)"
proof -
  define n0 where "n0 = (of_char b0 :: nat)"
  consider (a) "n0 < 0x80" | (b) "0x80 \<le> n0" "n0 < 0xC0" | (c) "0xC0 \<le> n0" "n0 < 0xE0"
    | (d) "0xE0 \<le> n0" "n0 < 0xF0" | (e) "0xF0 \<le> n0" "n0 < 0xF8" | (f) "0xF8 \<le> n0"
    by linarith
  then show ?thesis
  proof cases
    case a
    with d obtain s' where s': "utf8_decode bs = Some s'" "s = n0 # s'"
      by (auto simp: Let_def n0_def)
    have "utf8_char n0 = Some [b0]" using a by (intro enc1) (simp_all add: n0_def)
    with s' show ?thesis by (intro exI [of _ n0] exI [of _ s'] exI [of _ "[b0]"] exI [of _ bs]) simp
  next
    case b
    with d show ?thesis by (simp add: Let_def n0_def)
  next
    case c
    with d obtain b1 r s' where s': "bs = b1 # r" "cont b1"
        "0x80 \<le> (n0 - 0xC0) * 64 + cbits b1" "utf8_decode r = Some s'"
        "s = ((n0 - 0xC0) * 64 + cbits b1) # s'"
      by (auto simp: Let_def n0_def split: list.splits if_splits)
    have "utf8_char ((n0 - 0xC0) * 64 + cbits b1) = Some [b0, b1]"
      by (rule enc2 [OF n0_def c s'(2,3)])
    with s' show ?thesis
      by (intro exI [of _ "(n0 - 0xC0) * 64 + cbits b1"] exI [of _ s'] exI [of _ "[b0, b1]"]
            exI [of _ r]) simp
  next
    case d1: d
    with d obtain b1 b2 r s' where s': "bs = b1 # b2 # r" "cont b1" "cont b2"
        "0x800 \<le> (n0 - 0xE0) * 4096 + cbits b1 * 64 + cbits b2"
        "\<not> (0xD800 \<le> (n0 - 0xE0) * 4096 + cbits b1 * 64 + cbits b2
            \<and> (n0 - 0xE0) * 4096 + cbits b1 * 64 + cbits b2 \<le> 0xDFFF)"
        "utf8_decode r = Some s'"
        "s = ((n0 - 0xE0) * 4096 + cbits b1 * 64 + cbits b2) # s'"
      by (auto simp: Let_def n0_def split: list.splits if_splits)
    have "utf8_char ((n0 - 0xE0) * 4096 + cbits b1 * 64 + cbits b2) = Some [b0, b1, b2]"
      by (rule enc3 [OF n0_def d1 s'(2,3,4,5)])
    with s' show ?thesis
      by (intro exI [of _ "(n0 - 0xE0) * 4096 + cbits b1 * 64 + cbits b2"] exI [of _ s']
            exI [of _ "[b0, b1, b2]"] exI [of _ r]) simp
  next
    case e
    with d obtain b1 b2 b3 r s' where s': "bs = b1 # b2 # b3 # r" "cont b1" "cont b2" "cont b3"
        "0x10000 \<le> (n0 - 0xF0) * 262144 + cbits b1 * 4096 + cbits b2 * 64 + cbits b3"
        "(n0 - 0xF0) * 262144 + cbits b1 * 4096 + cbits b2 * 64 + cbits b3 < 0x110000"
        "utf8_decode r = Some s'"
        "s = ((n0 - 0xF0) * 262144 + cbits b1 * 4096 + cbits b2 * 64 + cbits b3) # s'"
      by (auto simp: Let_def n0_def split: list.splits if_splits)
    have "utf8_char ((n0 - 0xF0) * 262144 + cbits b1 * 4096 + cbits b2 * 64 + cbits b3)
            = Some [b0, b1, b2, b3]"
      by (rule enc4 [OF n0_def e s'(2,3,4,5,6)])
    with s' show ?thesis
      by (intro exI [of _ "(n0 - 0xF0) * 262144 + cbits b1 * 4096 + cbits b2 * 64 + cbits b3"]
            exI [of _ s'] exI [of _ "[b0, b1, b2, b3]"] exI [of _ r]) simp
  next
    case f
    with d show ?thesis by (simp add: Let_def n0_def)
  qed
qed

lemma utf8_decode_sound: "utf8_decode b = Some s \<Longrightarrow> utf8_encode s = Some b"
proof (induction "length b" arbitrary: b s rule: less_induct)
  case less
  show ?case
  proof (cases b)
    case Nil
    with less.prems show ?thesis by simp
  next
    case (Cons b0 bs)
    with less.prems utf8_decode_step [of b0 bs s]
    obtain cp s' u r where st: "s = cp # s'" "b0 # bs = u @ r" "utf8_char cp = Some u"
        "utf8_decode r = Some s'" "length r < length (b0 # bs)"
      by blast
    from less.hyps [OF _ st(4)] st(5) Cons have "utf8_encode s' = Some r" by simp
    with st Cons show ?thesis by simp
  qed
qed

lemma key_bytes_text_of: "key_bytes (text_of b) = b"
  by (auto simp: text_of_def key_bytes_def utf8_decode_sound split: option.splits)

lemma text_of_inj: "text_of a = text_of b \<Longrightarrow> a = b"
  by (metis key_bytes_text_of)

section \<open>Repeated keys in an encoded dict\<close>

lemma map_of_dict_assign:
  "map_of (dict_assign acc items) = map_of acc ++ map_of (rev items)"
proof (induction items arbitrary: acc)
  case Nil
  show ?case by (simp add: dict_assign_def)
next
  case (Cons x xs)
  have "dict_assign acc (x # xs) = dict_assign (AList.update (fst x) (snd x) acc) xs"
    by (simp add: dict_assign_def)
  then have "map_of (dict_assign acc (x # xs))
      = map_of (AList.update (fst x) (snd x) acc) ++ map_of (rev xs)"
    by (simp only: Cons.IH)
  also have "\<dots> = (map_of acc)(fst x \<mapsto> snd x) ++ map_of (rev xs)"
    by (simp only: update_conv')
  also have "\<dots> = map_of acc ++ map_of (rev (x # xs))"
    by (cases x) (simp add: map_add_upd_left fun_eq_iff map_add_def split: option.splits)
  finally show ?case .
qed

lemma map_of_dict_assign_Nil: "map_of (dict_assign [] items) = map_of (rev items)"
  by (simp add: map_of_dict_assign)

lemma keys_dict_assign_Nil: "fst ` set (dict_assign [] items) = fst ` set items"
proof -
  have "dom (map_of (dict_assign [] items)) = dom (map_of (rev items))"
    by (simp only: map_of_dict_assign_Nil)
  then show ?thesis by (simp add: dom_map_of_conv_image_fst)
qed

lemma map_of_map_keys:
  assumes "\<And>a b. f a = f b \<Longrightarrow> a = b"
  shows "map_of (map (\<lambda>x. (f (fst x), g (snd x))) l) (f k) = map_option g (map_of l k)"
  using assms by (induction l) auto

lemma uniform_fuel:
  assumes "\<forall>x\<in>set xs. \<exists>n. \<forall>m\<ge>n. P x m"
  shows "\<exists>N::nat. \<forall>x\<in>set xs. \<forall>m\<ge>N. P x m"
  using assms
proof (induction xs)
  case Nil
  show ?case by simp
next
  case (Cons x xs)
  then obtain N where N: "\<forall>y\<in>set xs. \<forall>m\<ge>N. P y m" by auto
  from Cons.prems obtain n where n: "\<forall>m\<ge>n. P x m" by auto
  have "\<forall>y\<in>set (x # xs). \<forall>m\<ge>max n N. P y m" using N n by auto
  then show ?case by blast
qed


lemma distinct_dict_assign:
  "distinct (map fst acc) \<Longrightarrow> distinct (map fst (dict_assign acc items))"
proof (induction items arbitrary: acc)
  case Nil
  then show ?case by (simp add: dict_assign_def)
next
  case (Cons x xs)
  have "dict_assign acc (x # xs) = dict_assign (AList.update (fst x) (snd x) acc) xs"
    by (simp add: dict_assign_def)
  moreover have "distinct (map fst (AList.update (fst x) (snd x) acc))"
    using Cons.prems by (rule distinct_update)
  ultimately show ?case using Cons.IH by simp
qed

text \<open>
  C10. A well-formed dict encoding is \<^verbatim>\<open>d\<close>, then pairs of a length-prefixed key and a
  well-formed value encoding, then \<^verbatim>\<open>e\<close>. \<open>ps\<close> lists the pairs in the order of the
  buffer, and may repeat a key: an entry \<open>(k, kb, vb)\<close> has the key bytes \<open>k\<close>, their
  length-prefixed form \<open>kb\<close> (what \<^verbatim>\<open>_encode_bytes\<close> returns for \<open>k\<close>) and a value
  encoding \<open>vb\<close> (what \<^verbatim>\<open>encode\<close> returns for some value). \<^verbatim>\<open>decode\<close> returns a dict
  \<open>d\<close> in which no key occurs twice, whose keys are the decoded keys of \<open>ps\<close>, and
  which binds each key \<open>k\<close> to the value that \<^verbatim>\<open>decode\<close> returns for \<open>vb\<close>, where
  \<open>vb\<close> is the value encoding that follows the last occurrence of \<open>k\<close> in the buffer.
\<close>

theorem decode_dict_last_key_wins:
  assumes wf: "\<forall>(k, kb, vb)\<in>set ps. encode_bytes k = Inr kb \<and> (\<exists>v. encode v = Inr vb)"
  shows "\<exists>n. \<forall>m\<ge>n. \<exists>d.
           decode m (Bytes (DICT @ concat (map (\<lambda>(k, kb, vb). kb @ vb) ps) @ END))
             = Some (Inr (PDict d)) \<and>
           dict_wf d \<and>
           fst ` set d = text_of ` fst ` set ps \<and>
           (\<forall>k vb. map_of (rev (map (\<lambda>(k, kb, vb). (k, vb)) ps)) k = Some vb \<longrightarrow>
              (\<exists>v'. map_of d (text_of k) = Some v' \<and> decode m (Bytes vb) = Some (Inr v')))"
  unfolding split_def
proof -
  define W where "W vb = readback (SOME v. encode v = Inr vb)" for vb
  let ?kv = "map (\<lambda>p. (fst p, snd (snd p))) ps"
  let ?items = "map (\<lambda>p. (text_of (fst p), W (snd (snd p)))) ps"
  let ?d = "dict_assign [] ?items"
  let ?data = "DICT @ concat (map (\<lambda>p. fst (snd p) @ snd (snd p)) ps) @ END"
  from wf have wf': "\<forall>p\<in>set ps. encode_bytes (fst p) = Inr (fst (snd p))
                       \<and> (\<exists>v. encode v = Inr (snd (snd p)))"
    by (simp add: split_def)
  have el: "\<forall>p\<in>set ps. encode_bytes (fst p) = Inr (fst (snd p))
                \<and> decodes_to (snd (snd p)) (W (snd (snd p)))"
  proof
    fix p assume p: "p \<in> set ps"
    with wf' have k: "encode_bytes (fst p) = Inr (fst (snd p))"
      and ex: "\<exists>v. encode v = Inr (snd (snd p))"
      by blast+
    from ex have "encode (SOME v. encode v = Inr (snd (snd p))) = Inr (snd (snd p))"
      by (rule someI_ex)
    then have "decodes_to (snd (snd p)) (W (snd (snd p)))" unfolding W_def by (rule encode_decodes)
    with k show "encode_bytes (fst p) = Inr (fst (snd p))
                \<and> decodes_to (snd (snd p)) (W (snd (snd p)))" ..
  qed
  have "decodes_to ?data (PDict ?d)"
    by (rule decodes_dict [OF el])
  then obtain n0 where n0: "\<forall>m\<ge>n0. decode m (Bytes ?data) = Some (Inr (PDict ?d))"
    using decodes_to_decode by blast
  have "\<forall>p\<in>set ps. \<exists>n. \<forall>m\<ge>n. decode m (Bytes (snd (snd p))) = Some (Inr (W (snd (snd p))))"
  proof
    fix p assume "p \<in> set ps"
    with el have "decodes_to (snd (snd p)) (W (snd (snd p)))" by blast
    then show "\<exists>n. \<forall>m\<ge>n. decode m (Bytes (snd (snd p))) = Some (Inr (W (snd (snd p))))"
      by (rule decodes_to_decode)
  qed
  then have "\<exists>N. \<forall>p\<in>set ps. \<forall>m\<ge>N. decode m (Bytes (snd (snd p))) = Some (Inr (W (snd (snd p))))"
    by (rule uniform_fuel)
  then obtain n1 where
    n1: "\<And>p m. p \<in> set ps \<Longrightarrow> n1 \<le> m \<Longrightarrow>
           decode m (Bytes (snd (snd p))) = Some (Inr (W (snd (snd p))))"
    by blast
  have wfd: "dict_wf ?d" unfolding dict_wf_def by (rule distinct_dict_assign) simp
  have keys: "fst ` set ?d = text_of ` fst ` set ps"
    by (simp add: keys_dict_assign_Nil image_image)
  have items: "?items = map (\<lambda>x. (text_of (fst x), W (snd x))) ?kv"
    by simp
  have look: "map_of ?d (text_of k) = Some (W vb)" if "map_of (rev ?kv) k = Some vb" for k vb
  proof -
    have "map_of ?d (text_of k) = map_of (map (\<lambda>x. (text_of (fst x), W (snd x))) (rev ?kv)) (text_of k)"
      by (simp only: map_of_dict_assign_Nil items rev_map)
    also have "\<dots> = map_option W (map_of (rev ?kv) k)"
      by (rule map_of_map_keys) (rule text_of_inj)
    finally show ?thesis using that by simp
  qed
  have "\<exists>d. decode m (Bytes ?data) = Some (Inr (PDict d)) \<and>
           dict_wf d \<and>
           fst ` set d = text_of ` fst ` set ps \<and>
           (\<forall>k vb. map_of (rev ?kv) k = Some vb \<longrightarrow>
              (\<exists>v'. map_of d (text_of k) = Some v' \<and> decode m (Bytes vb) = Some (Inr v')))"
    if le: "max n0 n1 \<le> m" for m
  proof (intro exI [of _ ?d] conjI allI impI)
    show "decode m (Bytes ?data) = Some (Inr (PDict ?d))" using n0 le by simp
    show "dict_wf ?d" by (rule wfd)
    show "fst ` set ?d = text_of ` fst ` set ps" by (rule keys)
    fix k vb assume kv: "map_of (rev ?kv) k = Some vb"
    then have "(k, vb) \<in> set (rev ?kv)" by (rule map_of_SomeD)
    then obtain p where p: "p \<in> set ps" "vb = snd (snd p)" by auto
    have "n1 \<le> m" using le by simp
    with p(1) have "decode m (Bytes (snd (snd p))) = Some (Inr (W (snd (snd p))))" by (rule n1)
    then have "decode m (Bytes vb) = Some (Inr (W vb))" by (simp only: p(2))
    with look [OF kv]
    show "\<exists>v'. map_of ?d (text_of k) = Some v' \<and> decode m (Bytes vb) = Some (Inr v')" by blast
  qed
  then show "\<exists>n. \<forall>m\<ge>n. \<exists>d.
           decode m (Bytes ?data) = Some (Inr (PDict d)) \<and>
           dict_wf d \<and>
           fst ` set d = text_of ` fst ` set ps \<and>
           (\<forall>k vb. map_of (rev ?kv) k = Some vb \<longrightarrow>
              (\<exists>v'. map_of d (text_of k) = Some v' \<and> decode m (Bytes vb) = Some (Inr v')))"
    by blast
qed

lemma decode_duplicate_key_example:
  "decode 4 (Bytes ''d1:ai1e1:ai2ee'') = Some (Inr (PDict [(Str [97], PInt 2)]))"
  by code_simp

theorem decode_dict_last_key_wins_witness:
  "encode_bytes ''a'' = Inr ''1:a'' \<and> (\<exists>v. encode v = Inr ''i1e'') \<and> (\<exists>v. encode v = Inr ''i2e'') \<and>
   (\<exists>n. \<forall>m\<ge>n. \<exists>d.
      decode m (Bytes (DICT @ concat (map (\<lambda>(k, kb, vb). kb @ vb)
                                       [(''a'', ''1:a'', ''i1e''), (''a'', ''1:a'', ''i2e'')]) @ END))
        = Some (Inr (PDict d)) \<and>
      dict_wf d \<and>
      fst ` set d = text_of ` fst ` set [(''a'', ''1:a'', ''i1e''), (''a'', ''1:a'', ''i2e'')] \<and>
      (\<forall>k vb. map_of (rev (map (\<lambda>(k, kb, vb). (k, vb))
                               [(''a'', ''1:a'', ''i1e''), (''a'', ''1:a'', ''i2e'')])) k = Some vb \<longrightarrow>
         (\<exists>v'. map_of d (text_of k) = Some v' \<and> decode m (Bytes vb) = Some (Inr v'))))"
proof -
  have k: "encode_bytes ''a'' = Inr ''1:a''" by code_simp
  have e1: "encode (PInt 1) = Inr ''i1e''" by code_simp
  have e2: "encode (PInt 2) = Inr ''i2e''" by code_simp
  have x1: "\<exists>v. encode v = Inr ''i1e''" by (rule exI [of _ "PInt 1"]) (rule e1)
  have x2: "\<exists>v. encode v = Inr ''i2e''" by (rule exI [of _ "PInt 2"]) (rule e2)
  have h: "\<forall>(k, kb, vb)\<in>set [(''a'', ''1:a'', ''i1e''), (''a'', ''1:a'', ''i2e'')].
             encode_bytes k = Inr kb \<and> (\<exists>v. encode v = Inr vb)"
    using k x1 x2 by simp
  show ?thesis using k x1 x2 decode_dict_last_key_wins [OF h] by blast
qed

section \<open>UTF-8 keeps the order of code points\<close>

lemma char_of_less: "m < n \<Longrightarrow> n < 256 \<Longrightarrow> (char_of (m::nat) :: char) < char_of (n::nat)"
  by (simp add: less_char_def)

lemma lex64:
  assumes "(c1::nat) < c2"
  shows "c1 div 64 < c2 div 64 \<or> (c1 div 64 = c2 div 64 \<and> c1 mod 64 < c2 mod 64)"
proof -
  have le: "c1 div 64 \<le> c2 div 64" using assms by (simp add: div_le_mono)
  show ?thesis
  proof (cases "c1 div 64 = c2 div 64")
    case True
    have "c1 = 64 * (c1 div 64) + c1 mod 64" "c2 = 64 * (c2 div 64) + c2 mod 64" by simp_all
    with True assms have "c1 mod 64 < c2 mod 64" by linarith
    with True show ?thesis by simp
  next
    case False
    with le show ?thesis by simp
  qed
qed

lemma db_head: "x < y \<Longrightarrow> differs_below (x # u) (y # v)"
  unfolding differs_below_def by (intro exI [of _ "[]"]) auto

lemma db_cons:
  assumes "differs_below u v"
  shows "differs_below (c # u) (c # v)"
proof -
  from assms obtain p a b r1 r2 where "u = p @ a # r1" "v = p @ b # r2" "a < b"
    unfolding differs_below_def by blast
  then have "c # u = (c # p) @ a # r1 \<and> c # v = (c # p) @ b # r2 \<and> a < b" by simp
  then show ?thesis unfolding differs_below_def by blast
qed

lemma db_append:
  assumes "differs_below u v"
  shows "differs_below (u @ s) (v @ t)"
proof -
  from assms obtain p a b r1 r2 where "u = p @ a # r1" "v = p @ b # r2" "a < b"
    unfolding differs_below_def by blast
  then have "u @ s = p @ a # (r1 @ s) \<and> v @ t = p @ b # (r2 @ t) \<and> a < b" by simp
  then show ?thesis unfolding differs_below_def by blast
qed

lemma prefix_less: "(p @ u < p @ v) = (u < (v :: 'a::linorder list))"
  by (induction p) simp_all

lemma db_less:
  assumes "differs_below u v"
  shows "u < v"
proof -
  from assms obtain p a b r1 r2 where "u = p @ a # r1" "v = p @ b # r2" "a < b"
    unfolding differs_below_def by blast
  then show ?thesis by (simp add: prefix_less)
qed

lemma g2:
  assumes lt: "(e1::nat) < e2" and hi: "L + e2 div 64 < 256"
  shows "differs_below [char_of (L + e1 div 64), char_of (0x80 + e1 mod 64)]
                       [char_of (L + e2 div 64), char_of (0x80 + e2 mod 64) :: char]"
  using lex64 [OF lt]
proof
  assume "e1 div 64 < e2 div 64"
  then have "(char_of (L + e1 div 64) :: char) < char_of (L + e2 div 64)"
    using hi by (intro char_of_less) simp_all
  then show ?thesis by (rule db_head)
next
  assume eq: "e1 div 64 = e2 div 64 \<and> e1 mod 64 < e2 mod 64"
  have "e2 mod 64 < 64" by simp
  then have "(0x80::nat) + e2 mod 64 < 256" by linarith
  with eq have "(char_of (0x80 + e1 mod 64) :: char) < char_of (0x80 + e2 mod 64)"
    by (intro char_of_less) simp_all
  then have "differs_below [char_of (0x80 + e1 mod 64)] [char_of (0x80 + e2 mod 64) :: char]"
    by (rule db_head)
  then have "differs_below [char_of (L + e2 div 64), char_of (0x80 + e1 mod 64)]
                           [char_of (L + e2 div 64), char_of (0x80 + e2 mod 64) :: char]"
    by (rule db_cons)
  with eq show ?thesis by simp
qed

lemma div_64_64: "(c::nat) div 64 div 64 = c div 4096"
  using div_mult2_eq [of c 64 64] by simp

lemma div_64_4096: "(c::nat) div 64 div 4096 = c div 262144"
  using div_mult2_eq [of c 64 4096] by simp

lemma div_64_4096_mod: "(c::nat) div 64 div 64 mod 64 = c div 4096 mod 64"
  by (simp only: div_64_64)

lemma last_byte_less:
  assumes "(c1::nat) mod 64 < c2 mod 64"
  shows "(char_of (0x80 + c1 mod 64) :: char) < char_of (0x80 + c2 mod 64)"
proof -
  have "c2 mod 64 < 64" by simp
  then have "(0x80::nat) + c2 mod 64 < 256" by linarith
  with assms show ?thesis by (intro char_of_less) simp_all
qed

lemma g3:
  assumes lt: "(c1::nat) < c2" and hi: "L + c2 div 4096 < 256"
  shows "differs_below
           [char_of (L + c1 div 4096), char_of (0x80 + c1 div 64 mod 64), char_of (0x80 + c1 mod 64)]
           [char_of (L + c2 div 4096), char_of (0x80 + c2 div 64 mod 64),
            char_of (0x80 + c2 mod 64) :: char]"
  using lex64 [OF lt]
proof
  assume e: "c1 div 64 < c2 div 64"
  have "differs_below
          [char_of (L + c1 div 64 div 64), char_of (0x80 + c1 div 64 mod 64)]
          [char_of (L + c2 div 64 div 64), char_of (0x80 + c2 div 64 mod 64) :: char]"
    by (rule g2 [OF e]) (simp only: div_64_64 hi)
  then have "differs_below
          ([char_of (L + c1 div 64 div 64), char_of (0x80 + c1 div 64 mod 64)] @ [char_of (0x80 + c1 mod 64)])
          ([char_of (L + c2 div 64 div 64), char_of (0x80 + c2 div 64 mod 64)] @ [char_of (0x80 + c2 mod 64) :: char])"
    by (rule db_append)
  then show ?thesis by (simp only: div_64_64 append.simps)
next
  assume eq: "c1 div 64 = c2 div 64 \<and> c1 mod 64 < c2 mod 64"
  then have a: "c1 div 4096 = c2 div 4096" by (metis div_64_64)
  have "differs_below [char_of (0x80 + c1 mod 64)] [char_of (0x80 + c2 mod 64) :: char]"
    using eq by (intro db_head last_byte_less) simp
  then have "differs_below
      [char_of (L + c2 div 4096), char_of (0x80 + c2 div 64 mod 64), char_of (0x80 + c1 mod 64)]
      [char_of (L + c2 div 4096), char_of (0x80 + c2 div 64 mod 64), char_of (0x80 + c2 mod 64) :: char]"
    by (intro db_cons)
  with eq a show ?thesis by simp
qed

lemma g4:
  assumes lt: "(c1::nat) < c2" and hi: "L + c2 div 262144 < 256"
  shows "differs_below
           [char_of (L + c1 div 262144), char_of (0x80 + c1 div 4096 mod 64),
            char_of (0x80 + c1 div 64 mod 64), char_of (0x80 + c1 mod 64)]
           [char_of (L + c2 div 262144), char_of (0x80 + c2 div 4096 mod 64),
            char_of (0x80 + c2 div 64 mod 64), char_of (0x80 + c2 mod 64) :: char]"
  using lex64 [OF lt]
proof
  assume e: "c1 div 64 < c2 div 64"
  have "differs_below
          [char_of (L + c1 div 64 div 4096), char_of (0x80 + c1 div 64 div 64 mod 64),
           char_of (0x80 + c1 div 64 mod 64)]
          [char_of (L + c2 div 64 div 4096), char_of (0x80 + c2 div 64 div 64 mod 64),
           char_of (0x80 + c2 div 64 mod 64) :: char]"
    by (rule g3 [OF e]) (simp only: div_64_4096 hi)
  then have "differs_below
          ([char_of (L + c1 div 64 div 4096), char_of (0x80 + c1 div 64 div 64 mod 64),
            char_of (0x80 + c1 div 64 mod 64)] @ [char_of (0x80 + c1 mod 64)])
          ([char_of (L + c2 div 64 div 4096), char_of (0x80 + c2 div 64 div 64 mod 64),
            char_of (0x80 + c2 div 64 mod 64)] @ [char_of (0x80 + c2 mod 64) :: char])"
    by (rule db_append)
  then show ?thesis by (simp only: div_64_4096 div_64_64 append.simps)
next
  assume eq: "c1 div 64 = c2 div 64 \<and> c1 mod 64 < c2 mod 64"
  then have a: "c1 div 262144 = c2 div 262144" "c1 div 4096 = c2 div 4096"
    by (metis div_64_4096, metis div_64_64)
  have "differs_below [char_of (0x80 + c1 mod 64)] [char_of (0x80 + c2 mod 64) :: char]"
    using eq by (intro db_head last_byte_less) simp
  then have "differs_below
      [char_of (L + c2 div 262144), char_of (0x80 + c2 div 4096 mod 64),
       char_of (0x80 + c2 div 64 mod 64), char_of (0x80 + c1 mod 64)]
      [char_of (L + c2 div 262144), char_of (0x80 + c2 div 4096 mod 64),
       char_of (0x80 + c2 div 64 mod 64), char_of (0x80 + c2 mod 64) :: char]"
    by (intro db_cons)
  with eq a show ?thesis by simp
qed


lemma utf8_char_cases:
  assumes "utf8_char c = Some u"
  shows "(c < 0x80 \<and> u = [char_of c])
       \<or> (0x80 \<le> c \<and> c < 0x800 \<and> u = [char_of (0xC0 + c div 64), char_of (0x80 + c mod 64)])
       \<or> (0x800 \<le> c \<and> c < 0x10000 \<and>
            u = [char_of (0xE0 + c div 4096), char_of (0x80 + c div 64 mod 64), char_of (0x80 + c mod 64)])
       \<or> (0x10000 \<le> c \<and> c < 0x110000 \<and>
            u = [char_of (0xF0 + c div 262144), char_of (0x80 + c div 4096 mod 64),
                 char_of (0x80 + c div 64 mod 64), char_of (0x80 + c mod 64)])"
  using assms by (auto simp: utf8_char_def split: if_splits)

lemma div_bounds:
  "(c::nat) < 0x800 \<Longrightarrow> c div 64 < 32"
  "(c::nat) < 0x10000 \<Longrightarrow> c div 4096 < 16"
  "(c::nat) < 0x110000 \<Longrightarrow> c div 262144 < 5"
  by (rule less_mult_imp_div_less, simp)+

lemma utf8_char_lead:
  assumes "utf8_char c = Some u"
  shows "\<exists>L r. u = char_of L # r \<and> L < (256::nat)
           \<and> (c < 0x80 \<longrightarrow> L < 0x80)
           \<and> (0x80 \<le> c \<and> c < 0x800 \<longrightarrow> 0xC0 \<le> L \<and> L < 0xE0)
           \<and> (0x800 \<le> c \<and> c < 0x10000 \<longrightarrow> 0xE0 \<le> L \<and> L < 0xF0)
           \<and> (0x10000 \<le> c \<longrightarrow> 0xF0 \<le> L)"
  using utf8_char_cases [OF assms]
proof (elim disjE conjE)
  assume "c < 0x80" "u = [char_of c]"
  then show ?thesis by (intro exI [of _ c] exI [of _ "[]"]) simp
next
  assume c: "0x80 \<le> c" "c < 0x800" and u: "u = [char_of (0xC0 + c div 64), char_of (0x80 + c mod 64)]"
  from div_bounds(1) [OF c(2)] c u show ?thesis
    by (intro exI [of _ "0xC0 + c div 64"] exI [of _ "[char_of (0x80 + c mod 64)]"]) simp
next
  assume c: "0x800 \<le> c" "c < 0x10000"
    and u: "u = [char_of (0xE0 + c div 4096), char_of (0x80 + c div 64 mod 64), char_of (0x80 + c mod 64)]"
  from div_bounds(2) [OF c(2)] c u show ?thesis
    by (intro exI [of _ "0xE0 + c div 4096"]
          exI [of _ "[char_of (0x80 + c div 64 mod 64), char_of (0x80 + c mod 64)]"]) simp
next
  assume c: "0x10000 \<le> c" "c < 0x110000"
    and u: "u = [char_of (0xF0 + c div 262144), char_of (0x80 + c div 4096 mod 64),
                 char_of (0x80 + c div 64 mod 64), char_of (0x80 + c mod 64)]"
  from div_bounds(3) [OF c(2)] c u show ?thesis
    by (intro exI [of _ "0xF0 + c div 262144"]
          exI [of _ "[char_of (0x80 + c div 4096 mod 64), char_of (0x80 + c div 64 mod 64),
                      char_of (0x80 + c mod 64)]"]) simp
qed

lemma utf8_char_mono:
  assumes u1: "utf8_char c1 = Some u1" and u2: "utf8_char c2 = Some u2" and lt: "c1 < c2"
  shows "differs_below u1 u2"
proof -
  consider (A) "c2 < 0x80" | (B) "0x80 \<le> c1" "c2 < 0x800" | (C) "0x800 \<le> c1" "c2 < 0x10000"
    | (D) "0x10000 \<le> c1"
    | (E) "(c1 < 0x80 \<and> 0x80 \<le> c2) \<or> (c1 < 0x800 \<and> 0x800 \<le> c2) \<or> (c1 < 0x10000 \<and> 0x10000 \<le> c2)"
    by linarith
  then show ?thesis
  proof cases
    case A
    with lt utf8_char_cases [OF u1] utf8_char_cases [OF u2]
    have "u1 = [char_of c1]" "u2 = [char_of c2]" by auto
    moreover have "(char_of c1 :: char) < char_of c2" using lt A by (intro char_of_less) simp_all
    ultimately show ?thesis by (simp add: db_head)
  next
    case B
    with lt utf8_char_cases [OF u1] utf8_char_cases [OF u2]
    have "u1 = [char_of (0xC0 + c1 div 64), char_of (0x80 + c1 mod 64)]"
      "u2 = [char_of (0xC0 + c2 div 64), char_of (0x80 + c2 mod 64)]" by auto
    moreover have "0xC0 + c2 div 64 < 256" using div_bounds(1) [OF B(2)] by simp
    ultimately show ?thesis using g2 [OF lt, of "0xC0"] by simp
  next
    case C
    with lt utf8_char_cases [OF u1] utf8_char_cases [OF u2]
    have "u1 = [char_of (0xE0 + c1 div 4096), char_of (0x80 + c1 div 64 mod 64), char_of (0x80 + c1 mod 64)]"
      "u2 = [char_of (0xE0 + c2 div 4096), char_of (0x80 + c2 div 64 mod 64), char_of (0x80 + c2 mod 64)]"
      by auto
    moreover have "0xE0 + c2 div 4096 < 256" using div_bounds(2) [OF C(2)] by simp
    ultimately show ?thesis using g3 [OF lt, of "0xE0"] by simp
  next
    case D
    with lt utf8_char_cases [OF u1] utf8_char_cases [OF u2]
    have "u1 = [char_of (0xF0 + c1 div 262144), char_of (0x80 + c1 div 4096 mod 64),
                char_of (0x80 + c1 div 64 mod 64), char_of (0x80 + c1 mod 64)]"
      "u2 = [char_of (0xF0 + c2 div 262144), char_of (0x80 + c2 div 4096 mod 64),
             char_of (0x80 + c2 div 64 mod 64), char_of (0x80 + c2 mod 64)]"
      "c2 < 0x110000"
      by auto
    moreover have "0xF0 + c2 div 262144 < 256" using div_bounds(3) [OF \<open>c2 < 0x110000\<close>] by simp
    ultimately show ?thesis using g4 [OF lt, of "0xF0"] by simp
  next
    case E
    from utf8_char_lead [OF u1] obtain L1 :: nat and r1 where l1: "u1 = char_of L1 # r1" "L1 < 256"
      "c1 < 0x80 \<longrightarrow> L1 < 0x80" "0x80 \<le> c1 \<and> c1 < 0x800 \<longrightarrow> 0xC0 \<le> L1 \<and> L1 < 0xE0"
      "0x800 \<le> c1 \<and> c1 < 0x10000 \<longrightarrow> 0xE0 \<le> L1 \<and> L1 < 0xF0" "0x10000 \<le> c1 \<longrightarrow> 0xF0 \<le> L1"
      by blast
    from utf8_char_lead [OF u2] obtain L2 :: nat and r2 where l2: "u2 = char_of L2 # r2" "L2 < 256"
      "c2 < 0x80 \<longrightarrow> L2 < 0x80" "0x80 \<le> c2 \<and> c2 < 0x800 \<longrightarrow> 0xC0 \<le> L2 \<and> L2 < 0xE0"
      "0x800 \<le> c2 \<and> c2 < 0x10000 \<longrightarrow> 0xE0 \<le> L2 \<and> L2 < 0xF0" "0x10000 \<le> c2 \<longrightarrow> 0xF0 \<le> L2"
      by blast
    have "L1 < L2" using E l1(3-6) l2(3-6) by linarith
    then have "(char_of L1 :: char) < char_of L2" using l2(2) by (rule char_of_less)
    then show ?thesis unfolding l1(1) l2(1) by (rule db_head)
  qed
qed

lemma utf8_char_nonempty: "utf8_char c = Some u \<Longrightarrow> u \<noteq> []"
  using utf8_char_cases by blast

lemma utf8_encode_mono:
  "utf8_encode s1 = Some b1 \<Longrightarrow> utf8_encode s2 = Some b2 \<Longrightarrow> s1 < s2 \<Longrightarrow> b1 < b2"
proof (induction s1 arbitrary: s2 b1 b2)
  case Nil
  then obtain c r where s2: "s2 = c # r" by (cases s2) auto
  with Nil obtain u t where "utf8_char c = Some u" "b2 = u @ t"
    by (auto split: option.splits)
  with Nil utf8_char_nonempty [of c u] show ?case by (cases u) auto
next
  case (Cons c1 r1)
  then obtain c2 r2 where s2: "s2 = c2 # r2" by (cases s2) auto
  from Cons.prems(1) obtain u1 t1 where e1: "utf8_char c1 = Some u1" "utf8_encode r1 = Some t1"
      "b1 = u1 @ t1"
    by (auto split: option.splits)
  from Cons.prems(2) s2 obtain u2 t2 where e2: "utf8_char c2 = Some u2" "utf8_encode r2 = Some t2"
      "b2 = u2 @ t2"
    by (auto split: option.splits)
  from Cons.prems(3) s2 consider "c1 < c2" | "c1 = c2" "r1 < r2" by auto
  then show ?case
  proof cases
    case 1
    have "differs_below (u1 @ t1) (u2 @ t2)"
      by (rule db_append [OF utf8_char_mono [OF e1(1) e2(1) 1]])
    then show ?thesis unfolding e1(3) e2(3) by (rule db_less)
  next
    case 2
    with e1 e2 have "u1 = u2" by simp
    moreover have "t1 < t2" by (rule Cons.IH [OF e1(2) e2(2) 2(2)])
    ultimately show ?thesis unfolding e1(3) e2(3) by (simp add: prefix_less)
  qed
qed

lemma utf8_encode_inj:
  assumes "utf8_encode s1 = Some b" "utf8_encode s2 = Some b"
  shows "s1 = s2"
proof (rule ccontr)
  assume "s1 \<noteq> s2"
  then consider "s1 < s2" | "s2 < s1" by (metis linorder_neqE)
  then show False
  proof cases
    case 1
    from utf8_encode_mono [OF assms 1] show False by simp
  next
    case 2
    from utf8_encode_mono [OF assms(2,1) 2] show False by simp
  qed
qed

section \<open>The order in which a dict is emitted\<close>

lemma list_all2_map_self: "(\<forall>x\<in>set xs. P x (f x)) \<Longrightarrow> list_all2 P xs (map f xs)"
  by (induction xs) auto

lemma key_val_utf8:
  "encode (key_val (Str t)) = Inr b \<Longrightarrow> utf8_encode t = Some (key_bytes (Str t))"
  by (auto simp: key_val_def key_bytes_def encode_str_def split: option.splits)

lemma key_bytes_Bytes: "is_Bytes k \<Longrightarrow> key_bytes k = the_bytes k"
  by (cases k) (simp_all add: key_bytes_def)

lemma key_bytes_mono:
  assumes "is_Str a" "is_Str b" "encode (key_val a) = Inr ea" "encode (key_val b) = Inr eb"
    and lt: "the_str a < the_str b"
  shows "key_bytes a < key_bytes b"
proof -
  from assms(1,2) obtain s t where st: "a = Str s" "b = Str t" by (cases a; cases b) auto
  have "utf8_encode s = Some (key_bytes a)" "utf8_encode t = Some (key_bytes b)"
    using assms(3,4) key_val_utf8 unfolding st by blast+
  then show ?thesis using lt st by (intro utf8_encode_mono [of s _ t]) simp_all
qed

lemma sort_key_strict:
  assumes d: "distinct (map fst kvs)" and inj: "inj_on g (fst ` set kvs)"
  shows "sorted_wrt (\<lambda>a b. g (fst a) < g (fst b)) (sort_key (\<lambda>kv. g (fst kv)) kvs)"
proof -
  let ?f = "\<lambda>kv. g (fst kv)"
  let ?s = "sort_key ?f kvs"
  have "inj_on ?f (set kvs)" using d inj by (rule inj_on_key)
  moreover have "distinct kvs" using d by (simp add: distinct_map)
  ultimately have "distinct (map ?f kvs)" by (simp add: distinct_map)
  moreover have "mset (map ?f ?s) = mset (map ?f kvs)" by simp
  ultimately have "distinct (map ?f ?s)" using mset_eq_imp_distinct_iff by blast
  moreover have "sorted (map ?f ?s)" by simp
  ultimately have "sorted_wrt (<) (map ?f ?s)" by (simp add: strict_sorted_iff)
  then show ?thesis by (simp add: sorted_wrt_map)
qed

lemma sorted_items_strict:
  assumes d: "distinct (map fst kvs)" and s: "sorted_items kvs = Inr s"
    and ok: "\<forall>kv\<in>set s. \<exists>b. encode (key_val (fst kv)) = Inr b"
  shows "sorted_wrt (\<lambda>a b. key_bytes (fst a) < key_bytes (fst b)) s"
proof (cases "list_all (\<lambda>kv. is_Str (fst kv)) kvs")
  case True
  with s have s': "s = sort_key (\<lambda>kv. the_str (fst kv)) kvs" by (simp add: sorted_items_def)
  from True have str: "\<forall>kv\<in>set s. is_Str (fst kv)" unfolding s' by (simp add: list_all_iff)
  from True have "inj_on the_str (fst ` set kvs)" by (intro inj_the_str) (auto simp: list_all_iff)
  with d have "sorted_wrt (\<lambda>a b. the_str (fst a) < the_str (fst b)) s"
    unfolding s' by (rule sort_key_strict)
  then show ?thesis
  proof (rule sorted_wrt_mono_rel [rotated])
    fix x y assume "x \<in> set s" "y \<in> set s" "the_str (fst x) < the_str (fst y)"
    with str ok show "key_bytes (fst x) < key_bytes (fst y)"
      by (metis key_bytes_mono)
  qed
next
  case False
  with s have b: "list_all (\<lambda>kv. is_Bytes (fst kv)) kvs"
    and s': "s = sort_key (\<lambda>kv. the_bytes (fst kv)) kvs"
    by (auto simp: sorted_items_def split: if_splits)
  from b have byt: "\<forall>kv\<in>set s. is_Bytes (fst kv)" unfolding s' by (simp add: list_all_iff)
  from b have "inj_on the_bytes (fst ` set kvs)" by (intro inj_the_bytes) (auto simp: list_all_iff)
  with d have "sorted_wrt (\<lambda>a b. the_bytes (fst a) < the_bytes (fst b)) s"
    unfolding s' by (rule sort_key_strict)
  then show ?thesis
  proof (rule sorted_wrt_mono_rel [rotated])
    fix x y assume "x \<in> set s" "y \<in> set s" "the_bytes (fst x) < the_bytes (fst y)"
    with byt show "key_bytes (fst x) < key_bytes (fst y)"
      by (simp add: key_bytes_Bytes)
  qed
qed

lemma mset_sorted_items: "sorted_items kvs = Inr s \<Longrightarrow> mset s = mset kvs"
  by (auto simp: sorted_items_def split: if_splits)


text \<open>
  C7. When \<^verbatim>\<open>encode\<close> returns \<open>out\<close> for a dict, \<open>out\<close> is \<^verbatim>\<open>d\<close>, then one piece for
  each item of a rearrangement \<open>s\<close> of the dict's items, then \<^verbatim>\<open>e\<close>. The piece of an item
  is \<^verbatim>\<open>encode(key)\<close> followed by \<^verbatim>\<open>encode(value)\<close>, where \<^verbatim>\<open>encode(key)\<close> is the
  length-prefixed raw bytes of the key (a text key standing for its UTF-8 bytes). Along
  \<open>s\<close> the raw key bytes ascend strictly in the lexicographic order of byte values. For
  text keys \<^verbatim>\<open>sorted\<close> compares code points; the order of the bytes is the same because
  UTF-8 keeps the order of code points.
\<close>

theorem encode_dict_sorted_by_key_bytes:
  assumes wf: "dict_wf kvs" and enc: "encode (PDict kvs) = Inr out"
  shows "\<exists>s es. mset s = mset kvs
           \<and> sorted_wrt (<) (map (\<lambda>kv. key_bytes (fst kv)) s)
           \<and> list_all2 (\<lambda>kv e. \<exists>kb vb. encode (key_val (fst kv)) = Inr kb
                                  \<and> encode_bytes (key_bytes (fst kv)) = Inr kb
                                  \<and> encode (snd kv) = Inr vb
                                  \<and> e = kb @ vb) s es
           \<and> out = DICT @ concat es @ END"
proof -
  from enc obtain s where s: "sorted_items kvs = Inr s"
    by (auto split: sum.splits)
  with enc obtain body where body:
    "join_results (concat (map (\<lambda>kv. [encode (key_val (fst kv)), encode (snd kv)]) s)) = Inr body"
    "out = DICT @ body @ END"
    by (auto split: sum.splits)
  let ?e = "\<lambda>kv. projr (encode (key_val (fst kv))) @ projr (encode (snd kv))"
  from join_results_pairs [OF body(1)]
  have ok: "\<forall>kv\<in>set s. encode (key_val (fst kv)) = Inr (projr (encode (key_val (fst kv))))
              \<and> encode (snd kv) = Inr (projr (encode (snd kv)))"
    and bd: "body = concat (map ?e s)"
    by blast+
  have keys: "encode_bytes (key_bytes (fst kv)) = Inr (projr (encode (key_val (fst kv))))"
    if "kv \<in> set s" for kv
    using ok that encode_key_val by blast
  have 1: "mset s = mset kvs" using s by (rule mset_sorted_items)
  have "sorted_wrt (\<lambda>a b. key_bytes (fst a) < key_bytes (fst b)) s"
    using wf s ok unfolding dict_wf_def by (intro sorted_items_strict) blast+
  then have 2: "sorted_wrt (<) (map (\<lambda>kv. key_bytes (fst kv)) s)" by (simp add: sorted_wrt_map)
  have 3: "list_all2 (\<lambda>kv e. \<exists>kb vb. encode (key_val (fst kv)) = Inr kb
                                  \<and> encode_bytes (key_bytes (fst kv)) = Inr kb
                                  \<and> encode (snd kv) = Inr vb
                                  \<and> e = kb @ vb) s (map ?e s)"
    by (rule list_all2_map_self) (use ok keys in blast)
  have 4: "out = DICT @ concat (map ?e s) @ END" using body(2) bd by simp
  from 1 2 3 4 show ?thesis by blast
qed

theorem encode_dict_sorted_by_key_bytes_witness:
  "dict_wf [(Str [102, 111, 111], PInt 42), (Str [98, 97, 114], PBytes ''spam'')]
   \<and> encode (PDict [(Str [102, 111, 111], PInt 42), (Str [98, 97, 114], PBytes ''spam'')])
       = Inr ''d3:bar4:spam3:fooi42ee''
   \<and> (\<exists>s es. mset s = mset [(Str [102, 111, 111], PInt 42), (Str [98, 97, 114], PBytes ''spam'')]
           \<and> sorted_wrt (<) (map (\<lambda>kv. key_bytes (fst kv)) s)
           \<and> list_all2 (\<lambda>kv e. \<exists>kb vb. encode (key_val (fst kv)) = Inr kb
                                  \<and> encode_bytes (key_bytes (fst kv)) = Inr kb
                                  \<and> encode (snd kv) = Inr vb
                                  \<and> e = kb @ vb) s es
           \<and> ''d3:bar4:spam3:fooi42ee'' = DICT @ concat es @ END)"
proof -
  have w: "dict_wf [(Str [102, 111, 111], PInt 42), (Str [98, 97, 114], PBytes ''spam'')]"
    by (simp add: dict_wf_def)
  have e: "encode (PDict [(Str [102, 111, 111], PInt 42), (Str [98, 97, 114], PBytes ''spam'')])
             = Inr ''d3:bar4:spam3:fooi42ee''"
    by code_simp
  show ?thesis using w e encode_dict_sorted_by_key_bytes [OF w e] by blast
qed

section \<open>Round trip\<close>

lemma canon_text_of: "canon (key_val (text_of b)) = PBytes b"
  by (auto simp: text_of_def key_val_def utf8_decode_sound split: option.splits)

lemma update_fresh: "k \<notin> fst ` set acc \<Longrightarrow> AList.update k v acc = acc @ [(k, v)]"
  by (induction acc) auto

lemma dict_assign_distinct:
  "distinct (map fst (acc @ items)) \<Longrightarrow> dict_assign acc items = acc @ items"
proof (induction items arbitrary: acc)
  case Nil
  show ?case by (simp add: dict_assign_def)
next
  case (Cons x xs)
  from Cons.prems have fresh: "fst x \<notin> fst ` set acc" by auto
  have "dict_assign acc (x # xs) = dict_assign (AList.update (fst x) (snd x) acc) xs"
    by (simp add: dict_assign_def)
  also have "\<dots> = dict_assign (acc @ [x]) xs" using fresh by (simp add: update_fresh)
  also have "\<dots> = (acc @ [x]) @ xs" using Cons.prems by (intro Cons.IH) simp
  finally show ?case by simp
qed

lemma sorted_items_kinds:
  "sorted_items kvs = Inr s \<Longrightarrow>
   (\<forall>kv\<in>set kvs. is_Str (fst kv)) \<or> (\<forall>kv\<in>set kvs. is_Bytes (fst kv))"
  by (auto simp: sorted_items_def list_all_iff split: if_splits)

lemma key_bytes_inj:
  assumes kind: "is_Str a \<and> is_Str b \<or> is_Bytes a \<and> is_Bytes b"
    and ea: "encode (key_val a) = Inr x" and eb: "encode (key_val b) = Inr y"
    and eq: "key_bytes a = key_bytes b"
  shows "a = b"
  using kind
proof
  assume "is_Str a \<and> is_Str b"
  then obtain s t where st: "a = Str s" "b = Str t" by (cases a; cases b) auto
  have "utf8_encode s = Some (key_bytes a)" "utf8_encode t = Some (key_bytes b)"
    using ea eb key_val_utf8 unfolding st by blast+
  with eq have "s = t" by (intro utf8_encode_inj [of s _ t]) simp_all
  with st show ?thesis by simp
next
  assume "is_Bytes a \<and> is_Bytes b"
  with eq show ?thesis by (cases a; cases b) (simp_all add: key_bytes_def)
qed

lemma canon_dict:
  assumes d: "distinct (map fst kvs)" and s: "sorted_items kvs = Inr s"
    and keys: "\<forall>kv\<in>set s. \<exists>b. encode (key_val (fst kv)) = Inr b"
    and vals: "\<forall>kv\<in>set s. canon (readback (snd kv)) = canon (snd kv)"
  shows "canon (readback (PDict kvs)) = canon (PDict kvs)"
proof -
  let ?h = "\<lambda>kv. (Bytes (key_bytes (fst kv)), canon (snd kv))"
  let ?g = "\<lambda>kv :: str_or_bytes \<times> pyval. the_bytes (fst kv)"
  let ?items = "map (\<lambda>kv. (text_of (key_bytes (fst kv)), readback (snd kv))) s"
  have ms: "mset s = mset kvs" using s by (rule mset_sorted_items)
  then have ss: "set s = set kvs" by (rule mset_eq_setD)
  have ds: "distinct (map fst s)"
    using d ms by (metis mset_eq_imp_distinct_iff mset_map)
  have kinds: "(\<forall>kv\<in>set s. is_Str (fst kv)) \<or> (\<forall>kv\<in>set s. is_Bytes (fst kv))"
    using sorted_items_kinds [OF s] ss by simp
  have kinj: "fst a = fst b" if "a \<in> set s" "b \<in> set s" "key_bytes (fst a) = key_bytes (fst b)" for a b
  proof -
    from kinds that have "is_Str (fst a) \<and> is_Str (fst b) \<or> is_Bytes (fst a) \<and> is_Bytes (fst b)"
      by blast
    moreover from keys that obtain x y where "encode (key_val (fst a)) = Inr x"
        "encode (key_val (fst b)) = Inr y" by blast
    ultimately show ?thesis using that(3) by (rule key_bytes_inj)
  qed
  have pinj: "a = b" if "a \<in> set s" "b \<in> set s" "key_bytes (fst a) = key_bytes (fst b)" for a b
  proof -
    have "fst a = fst b" using that by (rule kinj)
    moreover from ds have "inj_on fst (set s)" by (simp add: distinct_map)
    ultimately show ?thesis using that(1,2) by (auto dest: inj_onD)
  qed
  have "inj_on (\<lambda>kv. text_of (key_bytes (fst kv))) (set s)"
    by (rule inj_onI) (metis pinj text_of_inj)
  moreover have "distinct s" using ds by (simp add: distinct_map)
  ultimately have "distinct (map fst ?items)" by (simp add: distinct_map comp_def)
  then have "dict_assign [] ?items = ?items"
    using dict_assign_distinct [of "[]" ?items] by simp
  then have rb: "readback (PDict kvs) = PDict ?items"
    by (simp add: the_sorted_Inr [OF s])
  have hm: "map ?h ?items = map ?h s"
    using vals by (simp add: key_bytes_text_of)
  have sk: "sort_key ?g (map ?h s) = sort_key ?g (map ?h kvs)"
  proof (rule sort_key_inj_key_eq)
    show "mset (map ?h s) = mset (sort_key ?g (map ?h kvs))" using ms by simp
    show "inj_on ?g (set (map ?h s))"
    proof (rule inj_onI)
      fix x y assume "x \<in> set (map ?h s)" "y \<in> set (map ?h s)" and g: "?g x = ?g y"
      then obtain a b where ab: "a \<in> set s" "b \<in> set s" "x = ?h a" "y = ?h b" by auto
      with g have "key_bytes (fst a) = key_bytes (fst b)" by simp
      with ab(1,2) have "a = b" by (rule pinj)
      with ab show "x = y" by simp
    qed
    show "sorted (map ?g (sort_key ?g (map ?h kvs)))" by simp
  qed
  have "canon (readback (PDict kvs)) = canon (PDict ?items)" by (simp only: rb)
  also have "\<dots> = PDict (sort_key ?g (map ?h ?items))" by simp
  also have "\<dots> = PDict (sort_key ?g (map ?h s))" by (simp only: hm)
  also have "\<dots> = PDict (sort_key ?g (map ?h kvs))" by (simp only: sk)
  also have "\<dots> = canon (PDict kvs)" by simp
  finally show ?thesis .
qed

lemma canon_readback_aux:
  "(\<forall>b. value_wf v \<longrightarrow> encode v = Inr b \<longrightarrow> canon (readback v) = canon v)"
  "(\<forall>b. value_wf (PDict kvs) \<longrightarrow> encode_dict kvs = Inr b
        \<longrightarrow> canon (readback (PDict kvs)) = canon (PDict kvs))"
  "(\<forall>b. value_wf (PList xs) \<longrightarrow> encode_list xs = Inr b
        \<longrightarrow> canon (readback (PList xs)) = canon (PList xs))"
proof (induction v and kvs and xs rule: encode_encode_dict_encode_list.induct)
  case (1 b)
  show ?case by simp
next
  case (2 b)
  show ?case by (simp add: canon_text_of)
next
  case (3 kvs)
  then show ?case by simp
next
  case (4 n)
  show ?case by simp
next
  case (5 xs)
  then show ?case by simp
next
  case (6 s)
  show ?case
    by (auto simp: canon_text_of encode_str_def key_bytes_def split: option.splits)
next
  case 7
  show ?case by simp
next
  case (8 "value")
  show ?case
  proof (intro allI impI)
    fix b assume wf: "value_wf (PDict value)" and b: "encode_dict value = Inr b"
    from b obtain s where s: "sorted_items value = Inr s"
      by (auto split: sum.splits)
    with b obtain body where body:
      "join_results (concat (map (\<lambda>kv. [encode (key_val (fst kv)), encode (snd kv)]) s)) = Inr body"
      by (auto split: sum.splits)
    from join_results_pairs [OF body]
    have ok: "\<forall>kv\<in>set s. encode (key_val (fst kv)) = Inr (projr (encode (key_val (fst kv))))
                \<and> encode (snd kv) = Inr (projr (encode (snd kv)))"
      by blast
    have ss: "set s = set value" using mset_sorted_items [OF s] by (rule mset_eq_setD)
    from wf have d: "distinct (map fst value)" and wfv: "\<forall>kv\<in>set value. value_wf (snd kv)"
      by (simp_all add: dict_wf_def list_all_iff)
    have vals: "\<forall>kv\<in>set s. canon (readback (snd kv)) = canon (snd kv)"
      using "8.IH"(2) [OF s] ok wfv ss by blast
    have keys: "\<forall>kv\<in>set s. \<exists>b. encode (key_val (fst kv)) = Inr b" using ok by blast
    show "canon (readback (PDict value)) = canon (PDict value)"
      by (rule canon_dict [OF d s keys vals])
  qed
next
  case (9 data)
  show ?case
  proof (intro allI impI)
    fix b assume wf: "value_wf (PList data)" and b: "encode_list data = Inr b"
    then obtain body where body: "join_results (map encode data) = Inr body"
      by (auto split: sum.splits)
    from join_results_map [OF body]
    have ok: "\<forall>x\<in>set data. encode x = Inr (projr (encode x))" by blast
    from wf have "\<forall>x\<in>set data. value_wf x" by (simp add: list_all_iff)
    with "9.IH" ok have "\<forall>x\<in>set data. canon (readback x) = canon x" by blast
    then show "canon (readback (PList data)) = canon (PList data)" by simp
  qed
qed

lemma canon_readback: "value_wf v \<Longrightarrow> encode v = Inr b \<Longrightarrow> canon (readback v) = canon v"
  using canon_readback_aux(1) by blast


text \<open>
  C2, as stated, fails: the integer \<open>10\<^sup>4\<^sup>3\<^sup>0\<^sup>0\<close> is a value of the model, and
  \<^verbatim>\<open>encode\<close> raises \<^verbatim>\<open>ValueError\<close> on it, because \<^verbatim>\<open>str\<close> refuses to print an integer of
  more than 4300 digits. Nothing is encoded, so nothing is decoded.
\<close>

theorem encode_big_int_raises_ValueError:
  "encode (PInt (10 ^ 4300)) = Inl ValueError"
  by (rule encode_int_too_long [unfolded max_str_digits_def])

text \<open>
  C2, amended. Take a value that is built at every level from integers of at most 4300
  decimal digits, booleans, byte strings, text strings without surrogates, lists, and
  dicts whose keys are all text or all bytes (\<open>encodable\<close>; the length of every string
  has at most 4300 digits too), and whose dicts have no repeated key (\<open>value_wf\<close>, which
  holds of every Python value). For such a value \<^verbatim>\<open>encode\<close> returns bytes \<open>b\<close>, and
  \<^verbatim>\<open>decode\<close> of \<open>b\<close> returns, given enough fuel, a value equal to the original one up to
  \<open>py_equiv\<close>: a byte string and its valid UTF-8 text are identified, and so are, as for
  Python's \<^verbatim>\<open>==\<close>, \<^verbatim>\<open>True\<close> and \<open>1\<close>, \<^verbatim>\<open>False\<close> and \<open>0\<close>, and two dicts with the same
  items in different orders.
\<close>

theorem decode_encode_roundtrip:
  assumes wf: "value_wf v" and ok: "encodable v"
  shows "\<exists>b. encode v = Inr b \<and>
           (\<exists>n. \<forall>m\<ge>n. \<exists>v'. decode m (Bytes b) = Some (Inr v') \<and> py_equiv v' v)"
proof -
  from ok obtain b where b: "encode v = Inr b" using encodable_encodes_aux(1) by blast
  have "decodes_to b (readback v)" using b by (rule encode_decodes)
  then obtain n where n: "\<forall>m\<ge>n. decode m (Bytes b) = Some (Inr (readback v))"
    using decodes_to_decode by blast
  have "py_equiv (readback v) v"
    unfolding py_equiv_def using wf b by (rule canon_readback)
  with b n show ?thesis by blast
qed

theorem decode_encode_roundtrip_witness:
  "value_wf (PDict [(Str [102, 111, 111], PList [PInt (- 42), PStr [233]]), (Str [98, 97, 114], PBytes ''spam'')])
   \<and> encodable (PDict [(Str [102, 111, 111], PList [PInt (- 42), PStr [233]]), (Str [98, 97, 114], PBytes ''spam'')])
   \<and> (\<exists>b. encode (PDict [(Str [102, 111, 111], PList [PInt (- 42), PStr [233]]), (Str [98, 97, 114], PBytes ''spam'')]) = Inr b \<and>
           (\<exists>n. \<forall>m\<ge>n. \<exists>v'. decode m (Bytes b) = Some (Inr v') \<and>
              py_equiv v' (PDict [(Str [102, 111, 111], PList [PInt (- 42), PStr [233]]), (Str [98, 97, 114], PBytes ''spam'')])))"
proof -
  have w: "value_wf (PDict [(Str [102, 111, 111], PList [PInt (- 42), PStr [233]]), (Str [98, 97, 114], PBytes ''spam'')])"
    by (simp add: dict_wf_def)
  have e: "encodable (PDict [(Str [102, 111, 111], PList [PInt (- 42), PStr [233]]), (Str [98, 97, 114], PBytes ''spam'')])"
    by (simp add: key_ok_def str_ok_def key_bytes_def utf8_char_def within_limit_def
          max_str_digits_def digits_of.simps)
  show ?thesis using w e decode_encode_roundtrip [OF w e] by blast
qed

lemma roundtrip_example:
  "decode 7 (Bytes ''d3:bar4:spam3:fooli-42eee'')
     = Some (Inr (PDict [(Str [98, 97, 114], PStr [115, 112, 97, 109]),
                         (Str [102, 111, 111], PList [PInt (- 42)])]))"
  by code_simp

section \<open>Malformed buffers, in general\<close>

text \<open>
  An integer marker that no \<^verbatim>\<open>e\<close> follows makes \<^verbatim>\<open>decode\<close> raise \<^verbatim>\<open>ValueError\<close>, whatever the
  other bytes are. And \<^verbatim>\<open>decode\<close> need not return at all: in \<^verbatim>\<open>b"d0:i0e-17:"\<close> the second
  key has the length \<open>-17\<close>, which \<^verbatim>\<open>_decode_str\<close> accepts (the loop of \<^verbatim>\<open>_decode_dict\<close>
  calls it without looking at the first byte) and which moves the cursor to \<open>-7\<close>; read
  from the end of the buffer, that is the position of \<^verbatim>\<open>i0e\<close>, after which the cursor is
  back on the second key. No amount of fuel yields a result.
\<close>

lemma rewind_key: "decode_str ''d0:i0e-17:'' 6 = Inr (Str [], - 7)"
  by code_simp

lemma rewind_value: "decode_at (Suc j) ''d0:i0e-17:'' (- 7) = Some (Inr (PInt 0, 6))"
proof -
  have s: "slice ''d0:i0e-17:'' (- 7) (- 7 + 1) = INTEGER" by code_simp
  have d: "decode_int ''d0:i0e-17:'' (- 7) = Inr (0, 6)" by code_simp
  show ?thesis by (rule decode_at_int [OF s d])
qed

lemma rewind_loop: "decode_dict_loop m ''d0:i0e-17:'' 6 acc = None"
proof (induction m arbitrary: acc)
  case 0
  show ?case by simp
next
  case (Suc k)
  have s: "slice ''d0:i0e-17:'' 6 (6 + 1) \<noteq> END" by code_simp
  show ?case
  proof (cases k)
    case 0
    with s rewind_key show ?thesis by simp
  next
    case (Suc j)
    have "decode_dict_loop (Suc k) ''d0:i0e-17:'' 6 acc
            = decode_dict_loop k ''d0:i0e-17:'' 6 (AList.update (Str []) (PInt 0) acc)"
      using rewind_value [of j] unfolding Suc [symmetric] by (rule dict_loop_step [OF s rewind_key])
    then show ?thesis by (simp only: Suc.IH)
  qed
qed

lemma decode_never_returns: "decode m (Bytes ''d0:i0e-17:'') = None"
proof -
  have s0: "slice ''d0:i0e-17:'' 0 (0 + 1) = DICT" by code_simp
  have s1: "slice ''d0:i0e-17:'' (0 + 1) (0 + 1 + 1) \<noteq> END" by code_simp
  have k1: "decode_str ''d0:i0e-17:'' (0 + 1) = Inr (Str [], 3)" by code_simp
  have v1: "decode_at (Suc i) ''d0:i0e-17:'' 3 = Some (Inr (PInt 0, 6))" for i
  proof -
    have s: "slice ''d0:i0e-17:'' 3 (3 + 1) = INTEGER" by code_simp
    have d: "decode_int ''d0:i0e-17:'' 3 = Inr (0, 6)" by code_simp
    show ?thesis by (rule decode_at_int [OF s d])
  qed
  have loop1: "decode_dict_loop k ''d0:i0e-17:'' (0 + 1) [] = None" for k
  proof (cases k)
    case 0
    then show ?thesis by simp
  next
    case (Suc j)
    show ?thesis
    proof (cases j)
      case 0
      with Suc s1 k1 show ?thesis by simp
    next
      case j: (Suc i)
      have "decode_dict_loop (Suc j) ''d0:i0e-17:'' (0 + 1) []
              = decode_dict_loop j ''d0:i0e-17:'' 6 (AList.update (Str []) (PInt 0) [])"
        using v1 [of i] unfolding j [symmetric] by (rule dict_loop_step [OF s1 k1])
      with Suc show ?thesis by (simp only: rewind_loop)
    qed
  qed
  have "decode_at m ''d0:i0e-17:'' 0 = None"
  proof (cases m)
    case 0
    then show ?thesis by simp
  next
    case (Suc k)
    have "decode_at (Suc k) ''d0:i0e-17:'' 0 = decode_dict_loop k ''d0:i0e-17:'' (0 + 1) []"
      by (rule decode_at_dict [OF s0])
    with Suc loop1 show ?thesis by simp
  qed
  then show ?thesis by (simp add: decode_def)
qed

lemma decode_int_no_terminator:
  assumes "CHR ''e'' \<notin> set rest"
  shows "decode (Suc n) (Bytes (INTEGER @ rest)) = Some (Inl ValueError)"
proof -
  have s: "slice (CHR ''i'' # rest) 0 (0 + 1) = INTEGER"
    using slice_one [of "[]" "CHR ''i''" rest] by (simp add: INTEGER_def)
  have "CHR ''e'' \<notin> set (drop (norm_index (length (CHR ''i'' # rest)) (0 + 1)) (CHR ''i'' # rest))"
    using assms by (auto simp: norm_index_def dest: in_set_dropD)
  then have "bytes_index (CHR ''i'' # rest) [CHR ''e''] (0 + 1) = Inl ValueError"
    by (rule bytes_index_missing)
  then have d: "decode_int (CHR ''i'' # rest) 0 = Inl ValueError"
    by (simp add: decode_int_def END_def)
  have "decode_at (Suc n) (CHR ''i'' # rest) 0 = Some (Inl ValueError)"
    using s d by simp
  then show ?thesis by (simp add: decode_def INTEGER_def)
qed

section \<open>Integers outside the canonical form\<close>

lemma digit_char_zero: "d < 10 \<Longrightarrow> digit_char d = CHR ''0'' \<Longrightarrow> d = 0"
proof -
  assume d: "d < 10" "digit_char d = CHR ''0''"
  then have "(of_char (digit_char d) :: nat) = 48" by simp
  with d(1) show "d = 0" by (simp add: of_char_digit_char)
qed

lemma digits_of_leading_zero: "digits_of n = CHR ''0'' # r \<Longrightarrow> n = 0 \<and> r = []"
proof (induction n arbitrary: r rule: digits_of.induct)
  case (1 n)
  show ?case
  proof (cases "n < 10")
    case True
    with "1.prems" have "digit_char n = CHR ''0''" "r = []"
      by (simp_all add: digits_of.simps [of n])
    with True digit_char_zero show ?thesis by blast
  next
    case False
    obtain c r' where q: "digits_of (n div 10) = c # r'"
      using digits_of_nonempty [of "n div 10"] by (cases "digits_of (n div 10)") auto
    with False "1.prems" have "c = CHR ''0''" by (simp add: digits_of.simps [of n])
    with q "1.IH" [OF False] have "n div 10 = 0" by blast
    with False show ?thesis by simp
  qed
qed

lemma str_int_chars: "str_int k = Inr s \<Longrightarrow> c \<in> set s \<Longrightarrow> is_digit c \<or> c = CHR ''-''"
  using digits_of_digits by (auto simp: str_int_Inr list_all_iff split: if_splits)

lemma encode_bytes_head: "encode_bytes k = Inr b \<Longrightarrow> \<exists>c r. b = c # r \<and> is_digit c"
  using digits_of_head [of "length k"] by (auto simp: encode_bytes_Inr)

lemma encode_int_shape:
  assumes "encode v = Inr (CHR ''i'' # rest)"
  shows "\<exists>k s. str_int k = Inr s \<and> rest = s @ ''e''"
proof (cases v)
  case (PBool b)
  with assms show ?thesis by (auto simp: encode_bool_def encode_int_Inr INTEGER_def END_def)
next
  case (PInt n)
  with assms show ?thesis by (auto simp: encode_int_Inr INTEGER_def END_def)
next
  case (PBytes b)
  with assms encode_bytes_head [of b] show ?thesis by (auto simp: is_digit_def)
next
  case (PStr s)
  with assms obtain u where "encode_bytes u = Inr (CHR ''i'' # rest)"
    by (auto simp: encode_str_def split: option.splits)
  with encode_bytes_head [of u] show ?thesis by (auto simp: is_digit_def)
next
  case (PList xs)
  with assms show ?thesis by (auto simp: LIST_def split: sum.splits)
next
  case (PDict kvs)
  with assms show ?thesis by (auto simp: DICT_def split: sum.splits)
next
  case POther
  with assms show ?thesis by simp
qed

lemma encode_never_noncanonical_int:
  assumes w1: "list_all is_space ws1" and w2: "list_all is_space ws2"
    and sg: "sg = [] \<or> sg = ''+'' \<or> sg = ''-''"
    and nc: "ws1 \<noteq> [] \<or> ws2 \<noteq> [] \<or> sg = ''+'' \<or> 0 < z"
  shows "encode v \<noteq> Inr (INTEGER @ ws1 @ sg @ replicate z (CHR ''0'') @ digits_of m @ ws2 @ END)"
proof
  let ?p = "ws1 @ sg @ replicate z (CHR ''0'') @ digits_of m @ ws2"
  assume "encode v = Inr (INTEGER @ ws1 @ sg @ replicate z (CHR ''0'') @ digits_of m @ ws2 @ END)"
  then have "encode v = Inr (CHR ''i'' # (?p @ ''e''))" by (simp add: INTEGER_def END_def)
  then obtain k s where ks: "str_int k = Inr s" and "?p @ ''e'' = s @ ''e''"
    using encode_int_shape by blast
  then have p: "?p = s" by simp
  have s: "s = (if k < 0 then CHR ''-'' # digits_of (nat \<bar>k\<bar>) else digits_of (nat \<bar>k\<bar>))"
    using ks by (simp add: str_int_Inr)
  have chars: "\<And>c. c \<in> set ?p \<Longrightarrow> is_digit c \<or> c = CHR ''-''"
    unfolding p by (rule str_int_chars [OF ks])
  have sp: "\<And>c. is_space c \<Longrightarrow> \<not> (is_digit c \<or> c = CHR ''-'')"
    by (auto simp: is_space_def is_digit_def)
  have e1: "ws1 = []"
  proof (cases ws1)
    case (Cons c r)
    with w1 have "is_space c" by simp
    moreover have "c \<in> set ?p" using Cons by simp
    ultimately show ?thesis using chars sp by blast
  qed simp
  have e2: "ws2 = []"
  proof (cases ws2)
    case (Cons c r)
    with w2 have "is_space c" by simp
    moreover have "c \<in> set ?p" using Cons by simp
    ultimately show ?thesis using chars sp by blast
  qed simp
  have e3: "sg \<noteq> ''+''"
  proof
    assume "sg = ''+''"
    then have "CHR ''+'' \<in> set ?p" by simp
    then have "is_digit (CHR ''+'') \<or> CHR ''+'' = CHR ''-''" by (rule chars)
    then show False by (simp add: is_digit_def)
  qed
  have zpos: "0 < z" using nc e1 e2 e3 by blast
  then obtain z' where z: "z = Suc z'" by (cases z) auto
  have p': "s = sg @ CHR ''0'' # (replicate z' (CHR ''0'') @ digits_of m)"
    using p [symmetric] unfolding e1 e2 z by simp
  have lead: "digits_of j \<noteq> CHR ''0'' # (replicate z' (CHR ''0'') @ digits_of m)" for j
    using digits_of_leading_zero [of j "replicate z' (CHR ''0'') @ digits_of m"]
      digits_of_nonempty [of m] by blast
  have nominus: "digits_of j \<noteq> CHR ''-'' # r" for j r
  proof
    assume "digits_of j = CHR ''-'' # r"
    with digits_of_digits [of j] have "is_digit (CHR ''-'')" by simp
    then show False by (simp add: is_digit_def)
  qed
  from sg e3 consider "sg = []" | "sg = ''-''" by blast
  then show False
  proof cases
    case 1
    show False
    proof (cases "k < 0")
      case True
      with p' 1 s show False by simp
    next
      case False
      with p' 1 s lead show False by simp
    qed
  next
    case 2
    show False
    proof (cases "k < 0")
      case True
      with p' 2 s lead show False by simp
    next
      case False
      with p' 2 s nominus show False by simp
    qed
  qed
qed

lemma decode_int_too_many_zeros:
  assumes "max_str_digits < z"
  shows "decode (Suc n) (Bytes (INTEGER @ replicate z (CHR ''0'') @ ''7'' @ END))
           = Some (Inl ValueError)"
proof -
  let ?ds = "replicate z (CHR ''0'') @ ''7''"
  have ds: "list_all is_digit ?ds" by (simp add: list_all_iff is_digit_def)
  have "max_str_digits < length ?ds" using assms by simp
  with ds have v: "py_int ?ds = Inl ValueError" by (rule py_int_too_many_digits)
  have e: "CHR ''e'' \<notin> set ?ds" using ds by (rule digits_no_e)
  have "decode (Suc n) (Bytes (INTEGER @ ?ds @ END)) = Some (Inl ValueError)"
    using e v by (rule decode_int_raises)
  then show ?thesis by simp
qed

text \<open>
  C9, as stated, fails for a payload of more than 4300 digits: \<^verbatim>\<open>int\<close> counts the
  leading zeros, and on \<^verbatim>\<open>i\<close>, 4301 zeros, \<^verbatim>\<open>7\<close>, \<^verbatim>\<open>e\<close> it raises \<^verbatim>\<open>ValueError\<close>, which is
  what the caller of \<^verbatim>\<open>decode\<close> receives, instead of the value 7.
\<close>

theorem decode_rejects_long_noncanonical_int:
  "decode 1 (Bytes (INTEGER @ replicate 4301 (CHR ''0'') @ ''7'' @ END)) = Some (Inl ValueError)"
proof -
  have "max_str_digits < 4301" by (simp add: max_str_digits_def)
  then have "decode (Suc 0) (Bytes (INTEGER @ replicate 4301 (CHR ''0'') @ ''7'' @ END))
               = Some (Inl ValueError)"
    by (rule decode_int_too_many_zeros)
  then show ?thesis by (simp only: One_nat_def)
qed

text \<open>
  C9, amended. Between \<^verbatim>\<open>i\<close> and \<^verbatim>\<open>e\<close> the decoder accepts what \<^verbatim>\<open>int\<close> accepts. Take
  the digits that \<^verbatim>\<open>str\<close> prints for a natural number \<open>m\<close>, put any number \<open>z\<close> of
  zeros before them, at most 4300 digits in all, an optional sign \<^verbatim>\<open>+\<close> or \<^verbatim>\<open>-\<close> before
  those, and any ASCII whitespace around the whole: \<^verbatim>\<open>decode\<close> returns, with any fuel
  but none, the integer \<open>m\<close>, negated when the sign is \<^verbatim>\<open>-\<close>. And when there is
  whitespace, a \<^verbatim>\<open>+\<close> or a zero in front, no value makes \<^verbatim>\<open>encode\<close> return this buffer.
\<close>

theorem decode_accepts_noncanonical_int:
  assumes w1: "list_all is_space ws1" and w2: "list_all is_space ws2"
    and sg: "sg = [] \<or> sg = ''+'' \<or> sg = ''-''"
    and lim: "z + length (digits_of m) \<le> max_str_digits"
  shows "decode (Suc n)
           (Bytes (INTEGER @ ws1 @ sg @ replicate z (CHR ''0'') @ digits_of m @ ws2 @ END))
         = Some (Inr (PInt (if sg = ''-'' then - int m else int m)))
       \<and> (ws1 \<noteq> [] \<or> ws2 \<noteq> [] \<or> sg = ''+'' \<or> 0 < z \<longrightarrow>
            (\<forall>v. encode v
                   \<noteq> Inr (INTEGER @ ws1 @ sg @ replicate z (CHR ''0'') @ digits_of m @ ws2 @ END)))"
  using decode_int_payload [OF w1 w2 sg lim] encode_never_noncanonical_int [OF w1 w2 sg] by blast

theorem decode_accepts_noncanonical_int_witness:
  "list_all is_space '' '' \<and> 2 + length (digits_of 7) \<le> max_str_digits
   \<and> decode 1 (Bytes ''i +007 e'') = Some (Inr (PInt 7))
   \<and> (\<forall>v. encode v \<noteq> Inr ''i +007 e'')"
proof -
  have w: "list_all is_space '' ''" by (simp add: is_space_def)
  have d: "digits_of 7 = ''7''" by code_simp
  have s: "''+'' = [] \<or> ''+'' = ''+'' \<or> ''+'' = ''-''" by simp
  have l: "2 + length (digits_of 7) \<le> max_str_digits" by (simp add: d max_str_digits_def)
  show ?thesis
    using w l decode_accepts_noncanonical_int [OF w w s l, of 0] d
    by (simp add: INTEGER_def END_def numeral_2_eq_2)
qed

end
